theory Spec2Isabelle
  imports Main "HOL-Library.AList" "HOL-Library.Char_ord" "HOL-Library.List_Lexorder"
    "HOL-Library.Product_Lexorder"
begin

section \<open>Errors\<close>

text \<open>
  \<^verbatim>\<open>app-error.mjs\<close>: an \<^verbatim>\<open>AppError\<close> carries a documented code and a message.  The
  engine can also fail with a JavaScript \<^verbatim>\<open>TypeError\<close> (a property read on
  \<^verbatim>\<open>undefined\<close>); that is a separate constructor.
\<close>

datatype code = SYNTAX | CIRCULAR_REF | LIMITS | DB

datatype error = AppError code string | TypeError string

fun err_code :: "error \<Rightarrow> code option" where
  "err_code (AppError c m) = Some c"
| "err_code (TypeError m) = None"

fun err_message :: "error \<Rightarrow> string" where
  "err_message (AppError c m) = m"
| "err_message (TypeError m) = m"

section \<open>Strings\<close>

text \<open>
  JavaScript strings are modelled as lists of ASCII characters.  \<^verbatim>\<open>toLowerCase\<close> maps
  \<^verbatim>\<open>A-Z\<close> to \<^verbatim>\<open>a-z\<close>; \<^verbatim>\<open>trim\<close> and \<^verbatim>\<open>trimStart\<close> strip the ASCII white
  space characters; \<^verbatim>\<open>\d\<close> is \<^verbatim>\<open>0-9\<close> and \<^verbatim>\<open>\w\<close> is \<^verbatim>\<open>[A-Za-z0-9_]\<close>.
\<close>

definition isUpper :: "char \<Rightarrow> bool" where
  "isUpper c = (65 \<le> (of_char c :: nat) \<and> (of_char c :: nat) \<le> 90)"

definition isLower :: "char \<Rightarrow> bool" where
  "isLower c = (97 \<le> (of_char c :: nat) \<and> (of_char c :: nat) \<le> 122)"

definition isDigit :: "char \<Rightarrow> bool" where
  "isDigit c = (48 \<le> (of_char c :: nat) \<and> (of_char c :: nat) \<le> 57)"

definition isLetter :: "char \<Rightarrow> bool" where
  "isLetter c = (isUpper c \<or> isLower c)"

definition isWord :: "char \<Rightarrow> bool" where
  "isWord c = (isLetter c \<or> isDigit c \<or> c = CHR ''_'')"

definition isSpace :: "char \<Rightarrow> bool" where
  "isSpace c = ((of_char c :: nat) = 32 \<or> (9 \<le> (of_char c :: nat) \<and> (of_char c :: nat) \<le> 13))"

definition lowerChar :: "char \<Rightarrow> char" where
  "lowerChar c = (if isUpper c then char_of ((of_char c :: nat) + 32) else c)"

definition toLowerCase :: "string \<Rightarrow> string" where
  "toLowerCase s = map lowerChar s"

definition trimStart :: "string \<Rightarrow> string" where
  "trimStart s = dropWhile isSpace s"

definition trim :: "string \<Rightarrow> string" where
  "trim s = rev (dropWhile isSpace (rev (dropWhile isSpace s)))"

text \<open>\<^verbatim>\<open>String(n)\<close> for an integer \<^verbatim>\<open>n\<close>: decimal digits, with a minus sign below zero.\<close>

definition digitChar :: "nat \<Rightarrow> char" where
  "digitChar d = char_of (48 + d)"

fun showNat :: "nat \<Rightarrow> string" where
  "showNat n = (if n < 10 then [digitChar n] else showNat (n div 10) @ [digitChar (n mod 10)])"

declare showNat.simps [simp del]

definition showInt :: "int \<Rightarrow> string" where
  "showInt i = (if i < 0 then CHR ''-'' # showNat (nat (- i)) else showNat (nat i))"

text \<open>\<^verbatim>\<open>Number(s)\<close> for a string of decimal digits.\<close>

definition digitVal :: "char \<Rightarrow> nat" where
  "digitVal c = (of_char c :: nat) - 48"

definition readNat :: "string \<Rightarrow> nat" where
  "readNat s = foldl (\<lambda>a c. 10 * a + digitVal c) 0 s"

section \<open>Coordinates (\<^verbatim>\<open>util.mjs\<close>)\<close>

text \<open>
  Modelled from the spec: \<^verbatim>\<open>limits.mjs\<close> is not among the sources.  The spec gives
  \<^verbatim>\<open>MAX_COLS = 26\<close> and a large \<^verbatim>\<open>MAX_ROWS\<close> (``e.g. 9999'').
\<close>

definition MAX_N_COLS :: int where
  "MAX_N_COLS = 26"

definition MAX_N_ROWS :: int where
  "MAX_N_ROWS = 9999"

definition cellRefToCellId :: "string \<Rightarrow> string" where
  "cellRefToCellId cellRef = filter (\<lambda>c. c \<noteq> CHR ''$'') (toLowerCase cellRef)"

text \<open>\<^verbatim>\<open>colSpecToIndex\<close> is only called on the single letter matched by the cell reference
  pattern; the model takes that character.\<close>

definition colSpecToIndex :: "char \<Rightarrow> int" where
  "colSpecToIndex c = int (of_char c) - 97"

definition indexToColSpec :: "int \<Rightarrow> int \<Rightarrow> error + string" where
  "indexToColSpec index baseIndex =
     (let absIndex = baseIndex + index in
      if absIndex < 0 \<or> absIndex \<ge> MAX_N_COLS
      then Inl (AppError SYNTAX (''bad column spec with index '' @ showInt index @
                  '' relative to '' @ showInt baseIndex))
      else Inr [char_of (nat (97 + absIndex))])"

text \<open>
  \<^verbatim>\<open>rowSpecToIndex\<close> computes \<^verbatim>\<open>Number(rowSpec) - 1\<close> and has the upper check only.  Its
  argument is a string of decimal digits; the value is an integer here (a double in
  the source, exact below \<^verbatim>\<open>2^53\<close>, and any larger value is above the limit as well).
\<close>

definition rowSpecToIndex :: "string \<Rightarrow> error + int" where
  "rowSpecToIndex rowSpec =
     (let index = int (readNat rowSpec) - 1 in
      if index \<ge> MAX_N_ROWS
      then Inl (AppError LIMITS (''bad row spec '' @ rowSpec @ ''; cannot be above '' @
                  showInt MAX_N_COLS))
      else Inr index)"

definition indexToRowSpec :: "int \<Rightarrow> int \<Rightarrow> error + string" where
  "indexToRowSpec index baseIndex =
     (let absIndex = baseIndex + index in
      if absIndex < 0 \<or> absIndex \<ge> MAX_N_ROWS
      then Inl (AppError SYNTAX (''bad row spec '' @ showInt (absIndex + 1) @ '' with index '' @
                  showInt index @ '' relative to '' @ showInt baseIndex))
      else Inr (showInt (absIndex + 1)))"

section \<open>Cell references (\<^verbatim>\<open>CellRef\<close> in \<^verbatim>\<open>expr-parser.mjs\<close>)\<close>

record axis =
  isAbs :: bool
  index :: int

record cellref =
  col :: axis
  row :: axis

text \<open>The pattern \<^verbatim>\<open>/^(\$?)([a-zA-Z])(\$?)([1-9]\d*)$/\<close>: the four groups, or no match.\<close>

definition optDollar :: "string \<Rightarrow> bool \<times> string" where
  "optDollar s = (case s of c # r \<Rightarrow> if c = CHR ''$'' then (True, r) else (False, s) | [] \<Rightarrow> (False, s))"

definition matchCellRef :: "string \<Rightarrow> (bool \<times> char \<times> bool \<times> string) option" where
  "matchCellRef s =
     (let (isAbsCol, s1) = optDollar s in
      case s1 of
        [] \<Rightarrow> None
      | c # s2 \<Rightarrow>
          if \<not> isLetter c then None
          else let (isAbsRow, s3) = optDollar s2 in
            (case s3 of
               [] \<Rightarrow> None
             | d # ds \<Rightarrow>
                 if isDigit d \<and> d \<noteq> CHR ''0'' \<and> list_all isDigit ds
                 then Some (isAbsCol, c, isAbsRow, s3) else None))"

text \<open>\<^verbatim>\<open>new CellRef(str, baseCell)\<close>; \<^verbatim>\<open>baseCell\<close> is \<^verbatim>\<open>null\<close> (\<open>None\<close>) or a cell reference.\<close>

definition baseColIndex :: "cellref option \<Rightarrow> int" where
  "baseColIndex baseCell = (case baseCell of None \<Rightarrow> 0 | Some b \<Rightarrow> index (col b))"

definition baseRowIndex :: "cellref option \<Rightarrow> int" where
  "baseRowIndex baseCell = (case baseCell of None \<Rightarrow> 0 | Some b \<Rightarrow> index (row b))"

definition newCellRef :: "string \<Rightarrow> cellref option \<Rightarrow> error + cellref" where
  "newCellRef str0 baseCell =
     (let str = toLowerCase (trim str0) in
      if str = [] then
        Inr \<lparr> col = \<lparr> isAbs = False, index = baseColIndex baseCell \<rparr>,
              row = \<lparr> isAbs = False, index = baseRowIndex baseCell \<rparr> \<rparr>
      else
        case matchCellRef str of
          None \<Rightarrow> Inl (AppError SYNTAX (''bad cell ref '' @ str))
        | Some (isAbsCol, c, isAbsRow, r) \<Rightarrow>
            let colIndex = colSpecToIndex c - (if isAbsCol then 0 else baseColIndex baseCell) in
            (case rowSpecToIndex r of
               Inl e \<Rightarrow> Inl e
             | Inr ri \<Rightarrow>
                 let rowIndex = ri - (if isAbsRow then 0 else baseRowIndex baseCell) in
                 Inr \<lparr> col = \<lparr> isAbs = isAbsCol, index = colIndex \<rparr>,
                       row = \<lparr> isAbs = isAbsRow, index = rowIndex \<rparr> \<rparr>))"

text \<open>\<^verbatim>\<open>CellRef.toString(baseCell)\<close>.\<close>

definition cellRefToString :: "cellref \<Rightarrow> cellref option \<Rightarrow> error + string" where
  "cellRefToString r baseCell =
     (case (if isAbs (col r)
            then map_sum id (\<lambda>s. CHR ''$'' # s) (indexToColSpec (index (col r)) 0)
            else indexToColSpec (index (col r)) (baseColIndex baseCell)) of
        Inl e \<Rightarrow> Inl e
      | Inr cs \<Rightarrow>
          (case (if isAbs (row r)
                 then map_sum id (\<lambda>s. CHR ''$'' # s) (indexToRowSpec (index (row r)) 0)
                 else indexToRowSpec (index (row r)) (baseRowIndex baseCell)) of
             Inl e \<Rightarrow> Inl e
           | Inr rs \<Rightarrow> Inr (cs @ rs)))"

section \<open>Numbers\<close>

text \<open>
  Cell values and numeric literals are JavaScript numbers (IEEE doubles), which HOL
  does not have.  The model is parametric in them: \<open>'n\<close> is the type of numbers and
  an \<open>'n arith\<close> supplies \<^verbatim>\<open>Number(lexeme)\<close> for a numeric literal, \<^verbatim>\<open>value.toString()\<close>,
  the number \<^verbatim>\<open>0\<close> and the evaluator's function table \<^verbatim>\<open>FNS[fn](...args)\<close>
  (which can throw when \<^verbatim>\<open>fn\<close> names an inherited property of the table object).
\<close>

record 'n arith =
  numOfLexeme :: "string \<Rightarrow> 'n"
  numToString :: "'n \<Rightarrow> string"
  numZero :: 'n
  applyFn :: "string \<Rightarrow> 'n list \<Rightarrow> error + 'n"

section \<open>The function table of the parser (\<^verbatim>\<open>FNS\<close> in \<^verbatim>\<open>expr-parser.mjs\<close>)\<close>

record fnInfo =
  prec :: "nat option"
  isLeft :: bool

definition MAX_PREC :: nat where
  "MAX_PREC = 100"

text \<open>\<^verbatim>\<open>FNS\<close> is an object literal, so a lookup also finds the properties inherited from
  \<^verbatim>\<open>Object.prototype\<close>; they have neither \<^verbatim>\<open>prec\<close> nor \<^verbatim>\<open>type\<close>.\<close>

definition objectProtoNames :: "string list" where
  "objectProtoNames =
     [''constructor'', ''__defineGetter__'', ''__defineSetter__'', ''hasOwnProperty'',
      ''__lookupGetter__'', ''__lookupSetter__'', ''isPrototypeOf'', ''propertyIsEnumerable'',
      ''toString'', ''valueOf'', ''__proto__'', ''toLocaleString'']"

definition FNS :: "string \<Rightarrow> fnInfo option" where
  "FNS fn =
     (if fn = ''+'' \<or> fn = ''-'' then Some \<lparr> prec = Some 10, isLeft = True \<rparr>
      else if fn = ''*'' \<or> fn = ''/'' then Some \<lparr> prec = Some 20, isLeft = True \<rparr>
      else if fn = ''max'' \<or> fn = ''min'' then Some \<lparr> prec = None, isLeft = False \<rparr>
      else if fn \<in> set objectProtoNames then Some \<lparr> prec = None, isLeft = False \<rparr>
      else None)"

section \<open>The scanner (\<^verbatim>\<open>scan\<close>)\<close>

datatype tokType = TNum | TFn | TRef | TEnd | TChar char

datatype 'n token =
    NumTok string 'n
  | FnTok string
  | RefTok string cellref
  | CharTok char
  | EndTok

fun typeOf :: "'n token \<Rightarrow> tokType" where
  "typeOf (NumTok l v) = TNum"
| "typeOf (FnTok l) = TFn"
| "typeOf (RefTok l r) = TRef"
| "typeOf (CharTok c) = TChar c"
| "typeOf EndTok = TEnd"

fun lexeme :: "'n token \<Rightarrow> string" where
  "lexeme (NumTok l v) = l"
| "lexeme (FnTok l) = l"
| "lexeme (RefTok l r) = l"
| "lexeme (CharTok c) = [c]"
| "lexeme EndTok = ''<END>''"

fun typeName :: "tokType \<Rightarrow> string" where
  "typeName TNum = ''num''"
| "typeName TFn = ''fn''"
| "typeName TRef = ''ref''"
| "typeName TEnd = ''<END>''"
| "typeName (TChar c) = [c]"

text \<open>The pattern \<^verbatim>\<open>/^\d+(\.\d+)?([eE][-+]?\d+)?/\<close> on a string that starts with a digit:
  the lexeme and what follows it.  The optional groups are taken when they match.\<close>

definition matchFrac :: "string \<Rightarrow> string \<times> string" where
  "matchFrac s =
     (case s of
        c # r \<Rightarrow>
          if c = CHR ''.'' \<and> takeWhile isDigit r \<noteq> []
          then (c # takeWhile isDigit r, dropWhile isDigit r) else ([], s)
      | [] \<Rightarrow> ([], s))"

definition matchSign :: "string \<Rightarrow> string \<times> string" where
  "matchSign s =
     (case s of
        c # r \<Rightarrow> if c = CHR ''-'' \<or> c = CHR ''+'' then ([c], r) else ([], s)
      | [] \<Rightarrow> ([], s))"

definition matchExp :: "string \<Rightarrow> string \<times> string" where
  "matchExp s =
     (case s of
        c # r \<Rightarrow>
          if c = CHR ''e'' \<or> c = CHR ''E'' then
            (let (sg, r1) = matchSign r in
             if takeWhile isDigit r1 \<noteq> []
             then (c # sg @ takeWhile isDigit r1, dropWhile isDigit r1) else ([], s))
          else ([], s)
      | [] \<Rightarrow> ([], s))"

definition matchNum :: "string \<Rightarrow> string \<times> string" where
  "matchNum s =
     (let (fr, r2) = matchFrac (dropWhile isDigit s);
          (ex, r3) = matchExp r2
      in (takeWhile isDigit s @ fr @ ex, r3))"

definition isWordOrDollar :: "char \<Rightarrow> bool" where
  "isWordOrDollar c = (isWord c \<or> c = CHR ''$'')"

text \<open>One token from a string that does not start with white space; the second
  component is \<^verbatim>\<open>str.slice(tok.lexeme.length)\<close>.\<close>

definition scanTok :: "'n arith \<Rightarrow> char \<Rightarrow> string \<Rightarrow> cellref \<Rightarrow> (error + 'n token) \<times> string" where
  "scanTok A c cs baseCell =
     (if isDigit c then
        (let (lx, rest) = matchNum (c # cs) in (Inr (NumTok lx (numOfLexeme A lx)), rest))
      else if isWordOrDollar c then
        (let lx = takeWhile isWordOrDollar (c # cs);
             rest = dropWhile isWordOrDollar (c # cs)
         in if FNS lx \<noteq> None then (Inr (FnTok lx), rest)
            else (map_sum id (RefTok lx) (newCellRef lx (Some baseCell)), rest))
      else (Inr (CharTok c), cs))"

lemma length_matchFrac: "length (snd (matchFrac s)) \<le> length s"
  by (auto simp: matchFrac_def split: list.splits intro: order_trans [OF length_dropWhile_le])

lemma length_matchSign: "length (snd (matchSign s)) \<le> length s"
  by (auto simp: matchSign_def split: list.splits)

lemma length_matchExp: "length (snd (matchExp s)) \<le> length s"
proof (cases s)
  case Nil
  then show ?thesis by (simp add: matchExp_def)
next
  case (Cons c r)
  obtain sg r1 where m: "matchSign r = (sg, r1)" by (cases "matchSign r")
  have "length r1 \<le> length r" using length_matchSign [of r] m by simp
  moreover have "length (dropWhile isDigit r1) \<le> length r1" by (rule length_dropWhile_le)
  ultimately show ?thesis using Cons m by (simp add: matchExp_def)
qed

lemma length_matchNum:
  assumes "isDigit c"
  shows "length (snd (matchNum (c # cs))) < length (c # cs)"
proof -
  obtain fr r2 where f: "matchFrac (dropWhile isDigit cs) = (fr, r2)"
    by (cases "matchFrac (dropWhile isDigit cs)")
  obtain ex r3 where e: "matchExp r2 = (ex, r3)" by (cases "matchExp r2")
  have "length r3 \<le> length r2" using length_matchExp [of r2] e by simp
  moreover have "length r2 \<le> length (dropWhile isDigit cs)"
    using length_matchFrac [of "dropWhile isDigit cs"] f by simp
  moreover have "length (dropWhile isDigit cs) \<le> length cs" by (rule length_dropWhile_le)
  ultimately show ?thesis using assms f e by (simp add: matchNum_def)
qed

lemma length_scanTok: "length (snd (scanTok A c cs b)) < length (c # cs)"
proof -
  have "length (dropWhile isWordOrDollar cs) \<le> length cs" by (rule length_dropWhile_le)
  then show ?thesis
    using length_matchNum [of c cs]
    by (auto simp: scanTok_def Let_def split: prod.splits)
qed

function scan :: "'n arith \<Rightarrow> string \<Rightarrow> cellref \<Rightarrow> error + 'n token list" where
  "scan A str baseCell =
     (case trimStart str of
        [] \<Rightarrow> Inr [EndTok]
      | c # cs \<Rightarrow>
          (case fst (scanTok A c cs baseCell) of
             Inl e \<Rightarrow> Inl e
           | Inr tok \<Rightarrow> map_sum id (Cons tok) (scan A (snd (scanTok A c cs baseCell)) baseCell)))"
  by pat_completeness auto
termination
proof (relation "measure (\<lambda>(A, str, b). length str)", goal_cases)
  case 1
  show ?case by simp
next
  case (2 A str baseCell c cs tok)
  have "length (c # cs) \<le> length str"
    using 2(1) length_dropWhile_le [of isSpace str] by (simp add: trimStart_def)
  then show ?case using length_scanTok [of A c cs baseCell] by simp
qed

declare scan.simps [simp del]

section \<open>Abstract syntax and the parser (\<^verbatim>\<open>ExprParser\<close>)\<close>

datatype 'n ast =
    Num 'n
  | Ref cellref
  | App string "'n ast list"

text \<open>
  The parser state is the list of tokens from the current one (\<^verbatim>\<open>this.tok\<close>) on.  The
  source's \<^verbatim>\<open>nextTok\<close> drops the head; a read of \<^verbatim>\<open>this.tok.type\<close> past the end of the
  token array would be a \<^verbatim>\<open>TypeError\<close>.
\<close>

definition pastEnd :: error where
  "pastEnd = TypeError ''Cannot read properties of undefined''"

definition unexpected :: "'n token \<Rightarrow> tokType \<Rightarrow> error" where
  "unexpected t ty =
     AppError SYNTAX (''unexpected token at '' @ [CHR 0x27] @ lexeme t @ [CHR 0x27] @
       '': expected '' @ [CHR 0x27] @ typeName ty @ [CHR 0x27])"

fun matchTok :: "tokType \<Rightarrow> 'n token list \<Rightarrow> error + 'n token list" where
  "matchTok ty [] = Inl pastEnd"
| "matchTok ty (t # ts) =
     (if typeOf t = ty then (if typeOf t \<noteq> TEnd then Inr ts else Inr (t # ts))
      else Inl (unexpected t ty))"

text \<open>Sequencing: an exception of the first call, or its reaching the bound, ends the second.\<close>

definition bindP :: "(error + 'a \<times> 'b) option \<Rightarrow> ('a \<Rightarrow> 'b \<Rightarrow> (error + 'c \<times> 'd) option) \<Rightarrow> (error + 'c \<times> 'd) option" where
  "bindP m f = (case m of None \<Rightarrow> None | Some (Inl e) \<Rightarrow> Some (Inl e) | Some (Inr (a, ts)) \<Rightarrow> f a ts)"

text \<open>
  The recursive descent functions.  The first argument bounds the depth of the calls;
  \<open>None\<close> means that the bound was reached (see \<open>parseExpr\<close> for the bound that is
  used).  \<open>termP\<close> is the source's \<^verbatim>\<open>term\<close>; \<open>exprLoop\<close>, \<open>termLoop\<close> and
  \<open>argsLoop\<close> are the three \<^verbatim>\<open>while\<close> loops.
  In the \<^verbatim>\<open>default\<close> branch of \<^verbatim>\<open>factor\<close> the source calls \<^verbatim>\<open>match('num')\<close>: it
  succeeds on a number token and throws on every other one.
\<close>

function (sequential) expr :: "nat \<Rightarrow> 'n token list \<Rightarrow> (error + 'n ast \<times> 'n token list) option"
  and exprLoop :: "nat \<Rightarrow> 'n ast \<Rightarrow> 'n token list \<Rightarrow> (error + 'n ast \<times> 'n token list) option"
  and termP :: "nat \<Rightarrow> 'n token list \<Rightarrow> (error + 'n ast \<times> 'n token list) option"
  and termLoop :: "nat \<Rightarrow> 'n ast \<Rightarrow> 'n token list \<Rightarrow> (error + 'n ast \<times> 'n token list) option"
  and factor :: "nat \<Rightarrow> 'n token list \<Rightarrow> (error + 'n ast \<times> 'n token list) option"
  and argsLoop :: "nat \<Rightarrow> 'n ast list \<Rightarrow> 'n token list \<Rightarrow> (error + 'n ast list \<times> 'n token list) option"
where
  "expr 0 ts = None"
| "expr (Suc n) ts = bindP (termP n ts) (\<lambda>t0 ts1. exprLoop n t0 ts1)"
| "exprLoop 0 t0 ts = None"
| "exprLoop (Suc n) t0 [] = Some (Inl pastEnd)"
| "exprLoop (Suc n) t0 (t # r) =
     (if typeOf t = TChar CHR ''+'' \<or> typeOf t = TChar CHR ''-''
      then bindP (termP n r) (\<lambda>t1 ts1. exprLoop n (App (lexeme t) [t0, t1]) ts1)
      else Some (Inr (t0, t # r)))"
| "termP 0 ts = None"
| "termP (Suc n) ts = bindP (factor n ts) (\<lambda>f0 ts1. termLoop n f0 ts1)"
| "termLoop 0 f0 ts = None"
| "termLoop (Suc n) f0 [] = Some (Inl pastEnd)"
| "termLoop (Suc n) f0 (t # r) =
     (if typeOf t = TChar CHR ''*'' \<or> typeOf t = TChar CHR ''/''
      then bindP (factor n r) (\<lambda>f1 ts1. termLoop n (App (lexeme t) [f0, f1]) ts1)
      else Some (Inr (f0, t # r)))"
| "factor 0 ts = None"
| "factor (Suc n) [] = Some (Inl pastEnd)"
| "factor (Suc n) (CharTok c # r) =
     (if c = CHR ''('' then
        bindP (expr n r) (\<lambda>e ts1. Some (map_sum id (Pair e) (matchTok (TChar CHR '')'') ts1)))
      else if c = CHR ''-'' then
        bindP (factor n r) (\<lambda>operand ts1. Some (Inr (App ''-'' [operand], ts1)))
      else Some (Inl (unexpected (CharTok c :: 'n token) TNum)))"
| "factor (Suc n) (RefTok l v # r) = Some (Inr (Ref v, r))"
| "factor (Suc n) (FnTok fn # r) =
     (case matchTok (TChar CHR ''('') r of
        Inl e \<Rightarrow> Some (Inl e)
      | Inr ts1 \<Rightarrow>
          bindP (expr n ts1) (\<lambda>a0 ts2.
            bindP (argsLoop n [a0] ts2) (\<lambda>args ts3.
              Some (map_sum id (Pair (App fn args)) (matchTok (TChar CHR '')'') ts3)))))"
| "factor (Suc n) (NumTok l v # r) = Some (Inr (Num v, r))"
| "factor (Suc n) (EndTok # r) = Some (Inl (unexpected (EndTok :: 'n token) TNum))"
| "argsLoop 0 args ts = None"
| "argsLoop (Suc n) args [] = Some (Inl pastEnd)"
| "argsLoop (Suc n) args (t # r) =
     (if typeOf t = TChar CHR '',''
      then bindP (expr n r) (\<lambda>a ts1. argsLoop n (args @ [a]) ts1)
      else Some (Inr (args, t # r)))"

  by pat_completeness auto

termination
  by (relation "measure (case_sum (case_sum fst (case_sum fst fst)) (case_sum fst (case_sum fst fst)))") auto

text \<open>
  \<^verbatim>\<open>parseExpr(str, baseCellId)\<close>: build the base cell reference, scan, then
  \<^verbatim>\<open>nextTok(); expr(); match('<END>')\<close>.  Every call of \<open>factor\<close> that returns has
  consumed a token, and there are three levels of calls for a token, so a depth of three
  per token (and three more) is never reached; \<open>parseDepth\<close> is that bound.
\<close>

definition parseDepth :: "'n token list \<Rightarrow> nat" where
  "parseDepth toks = 3 * length toks + 3"

definition parseToks :: "'n token list \<Rightarrow> (error + 'n ast) option" where
  "parseToks toks =
     (case expr (parseDepth toks) toks of
        None \<Rightarrow> None
      | Some (Inl e) \<Rightarrow> Some (Inl e)
      | Some (Inr (e, ts)) \<Rightarrow> Some (map_sum id (\<lambda>_. e) (matchTok TEnd ts)))"

definition parseExpr :: "'n arith \<Rightarrow> string \<Rightarrow> string \<Rightarrow> (error + 'n ast) option" where
  "parseExpr A str baseCellId =
     (case newCellRef baseCellId None of
        Inl e \<Rightarrow> Some (Inl e)
      | Inr baseCell \<Rightarrow>
          (case scan A str baseCell of
             Inl e \<Rightarrow> Some (Inl e)
           | Inr toks \<Rightarrow> parseToks toks))"

section \<open>The printer (\<^verbatim>\<open>Ast.toString\<close>)\<close>

fun joinStr :: "string \<Rightarrow> string list \<Rightarrow> string" where
  "joinStr sep [] = []"
| "joinStr sep [s] = s"
| "joinStr sep (s # t # ss) = s @ sep @ joinStr sep (t # ss)"

text \<open>\<^verbatim>\<open>FNS[kid.fn]?.prec\<close>: only an application has a \<^verbatim>\<open>fn\<close>.\<close>

fun kidPrec :: "'n ast \<Rightarrow> nat option" where
  "kidPrec (App fn kids) = (case FNS fn of None \<Rightarrow> None | Some info \<Rightarrow> prec info)"
| "kidPrec (Num v) = None"
| "kidPrec (Ref r) = None"

definition left :: "bool \<Rightarrow> string" where
  "left isParen = (if isParen then ''('' else [])"

definition right :: "bool \<Rightarrow> string" where
  "right isParen = (if isParen then '')'' else [])"

definition notCallable :: error where
  "notCallable = TypeError ''Cannot read properties of undefined''"

text \<open>
  \<open>astToStr\<close> is \<^verbatim>\<open>toString\<close> once the base cell is a \<^verbatim>\<open>CellRef\<close>; \<open>kidsToStr\<close> is the
  \<^verbatim>\<open>map\<close> over the kids of a named function, which stops at the first exception.  An
  operator with one kid prints as a prefix operator, with more kids it prints the
  first two; the source's assertions only log.
\<close>

fun astToStr :: "'n arith \<Rightarrow> 'n ast \<Rightarrow> cellref \<Rightarrow> error + string"
  and kidsToStr :: "'n arith \<Rightarrow> 'n ast list \<Rightarrow> cellref \<Rightarrow> error + string list"
where
  "astToStr A (Ref r) b = cellRefToString r (Some b)"
| "astToStr A (Num v) b = Inr (numToString A v)"
| "astToStr A (App fn kids) b =
     (case FNS fn of
        None \<Rightarrow> Inl notCallable
      | Some fnInfo \<Rightarrow>
          if \<not> isLeft fnInfo then
            (case kidsToStr A kids b of
               Inl e \<Rightarrow> Inl e
             | Inr ss \<Rightarrow> Inr (fn @ ''('' @ joinStr '', '' ss @ '')''))
          else
            (case kids of
               [] \<Rightarrow> Inl notCallable
             | [k] \<Rightarrow>
                 (let paren = (case kidPrec k of None \<Rightarrow> False | Some p \<Rightarrow> p \<noteq> 0) in
                  case astToStr A k b of
                    Inl e \<Rightarrow> Inl e
                  | Inr s \<Rightarrow> Inr (fn @ left paren @ s @ right paren))
             | k0 # k1 # ks \<Rightarrow>
                 (let p0 = (case kidPrec k0 of None \<Rightarrow> MAX_PREC | Some p \<Rightarrow> p) < the (prec fnInfo);
                      p1 = (case kidPrec k1 of None \<Rightarrow> MAX_PREC | Some p \<Rightarrow> p) \<le> the (prec fnInfo)
                  in case astToStr A k0 b of
                       Inl e \<Rightarrow> Inl e
                     | Inr s0 \<Rightarrow>
                         (case astToStr A k1 b of
                            Inl e \<Rightarrow> Inl e
                          | Inr s1 \<Rightarrow>
                              Inr (left p0 @ s0 @ right p0 @ fn @ left p1 @ s1 @ right p1)))))"
| "kidsToStr A [] b = Inr []"
| "kidsToStr A (k # ks) b =
     (case astToStr A k b of
        Inl e \<Rightarrow> Inl e
      | Inr s \<Rightarrow> map_sum id (Cons s) (kidsToStr A ks b))"

text \<open>\<^verbatim>\<open>ast.toString(baseCell)\<close> with a string: the base is converted first.\<close>

definition astToString :: "'n arith \<Rightarrow> 'n ast \<Rightarrow> string \<Rightarrow> error + string" where
  "astToString A a baseCell =
     (case newCellRef baseCell None of
        Inl e \<Rightarrow> Inl e
      | Inr b \<Rightarrow> astToStr A a b)"

section \<open>The cell table (\<^verbatim>\<open>CellInfo\<close> and the fields of \<^verbatim>\<open>Spreadsheet\<close>)\<close>

text \<open>
  A \<^verbatim>\<open>CellInfo\<close> has the fields \<^verbatim>\<open>id\<close>, \<^verbatim>\<open>value\<close>, \<^verbatim>\<open>ast\<close> (\<^verbatim>\<open>null\<close> for an empty
  cell) and \<^verbatim>\<open>dependents\<close>, a JavaScript \<^verbatim>\<open>Set\<close>: a list without repetitions in
  insertion order.  The fields are named \<open>cid\<close> and \<open>val\<close> here.
\<close>

record 'n cellinfo =
  cid :: string
  val :: 'n
  ast :: "'n ast option"
  dependents :: "string list"

definition newCellInfo :: "'n arith \<Rightarrow> string \<Rightarrow> 'n cellinfo" where
  "newCellInfo A i = \<lparr> cid = i, val = numZero A, ast = None, dependents = [] \<rparr>"

definition setAdd :: "string \<Rightarrow> string list \<Rightarrow> string list" where
  "setAdd x xs = (if x \<in> set xs then xs else xs @ [x])"

definition setDelete :: "string \<Rightarrow> string list \<Rightarrow> string list" where
  "setDelete x xs = removeAll x xs"

text \<open>The getter \<^verbatim>\<open>formula\<close> and \<^verbatim>\<open>isEmpty\<close>.\<close>

definition formula :: "'n arith \<Rightarrow> 'n cellinfo \<Rightarrow> error + string" where
  "formula A c = (case ast c of None \<Rightarrow> Inr [] | Some a \<Rightarrow> astToString A a (cid c))"

definition isEmpty :: "'n cellinfo \<Rightarrow> bool" where
  "isEmpty c = (ast c = None)"

text \<open>
  The store is an external collaborator: a call succeeds or throws.  A spreadsheet
  without a store has \<open>store = None\<close>; with one, \<open>store\<close> holds the outcomes of the
  calls still to come, in order (an exception or none; past the end of the list every
  call succeeds), and \<open>storeLog\<close> records the calls that were issued.

  \<^verbatim>\<open>_cells\<close> and \<^verbatim>\<open>_undos\<close> are JavaScript objects used as maps: association lists in
  insertion order (\<open>AList.update\<close> replaces in place or appends, as an assignment to a
  property does).  A missing snapshot (\<^verbatim>\<open>undefined\<close>) is \<open>None\<close>.
\<close>

datatype storeCall = UpdateCell string string | DeleteCell string | ClearAll

record 'n spreadsheet =
  store :: "error option list option"
  storeLog :: "storeCall list"
  cells :: "(string \<times> 'n cellinfo) list"
  undos :: "(string \<times> 'n cellinfo option) list"

definition newSpreadsheet :: "error option list option \<Rightarrow> 'n spreadsheet" where
  "newSpreadsheet s = \<lparr> store = s, storeLog = [], cells = [], undos = [] \<rparr>"

definition callStore :: "storeCall \<Rightarrow> 'n spreadsheet \<Rightarrow> error option \<times> 'n spreadsheet" where
  "callStore c st =
     (case store st of
        None \<Rightarrow> (None, st)
      | Some [] \<Rightarrow> (None, st \<lparr> storeLog := storeLog st @ [c] \<rparr>)
      | Some (outcome # os) \<Rightarrow>
          (outcome, st \<lparr> store := Some os, storeLog := storeLog st @ [c] \<rparr>))"

text \<open>\<^verbatim>\<open>_updateCell\<close>, in two steps: the snapshot on the first touch, then the update of
  the (possibly new) cell.  It returns the cell.\<close>

definition recordUndo :: "string \<Rightarrow> 'n spreadsheet \<Rightarrow> 'n spreadsheet" where
  "recordUndo cellId st =
     (if map_of (undos st) cellId \<noteq> None then st
      else st \<lparr> undos := undos st @ [(cellId, map_of (cells st) cellId)] \<rparr>)"

definition getOrCreate :: "'n arith \<Rightarrow> string \<Rightarrow> 'n spreadsheet \<Rightarrow> 'n cellinfo" where
  "getOrCreate A cellId st =
     (case map_of (cells st) cellId of None \<Rightarrow> newCellInfo A cellId | Some c \<Rightarrow> c)"

definition updateCell ::
  "'n arith \<Rightarrow> string \<Rightarrow> ('n cellinfo \<Rightarrow> 'n cellinfo) \<Rightarrow> 'n spreadsheet \<Rightarrow> 'n cellinfo \<times> 'n spreadsheet" where
  "updateCell A cellId updateFn st =
     (let st1 = recordUndo cellId st;
          cell = updateFn (getOrCreate A cellId st1)
      in (cell, st1 \<lparr> cells := AList.update cellId cell (cells st1) \<rparr>))"

text \<open>\<^verbatim>\<open>_undo\<close>.\<close>

definition undoStep :: "(string \<times> 'n cellinfo) list \<Rightarrow> string \<times> 'n cellinfo option \<Rightarrow> (string \<times> 'n cellinfo) list" where
  "undoStep cs kv = (case snd kv of Some v \<Rightarrow> AList.update (fst kv) v cs | None \<Rightarrow> AList.delete (fst kv) cs)"

definition undo :: "'n spreadsheet \<Rightarrow> 'n spreadsheet" where
  "undo st = st \<lparr> cells := foldl undoStep (cells st) (undos st) \<rparr>"

section \<open>The evaluator\<close>

text \<open>The cell a reference denotes: \<^verbatim>\<open>cellRefToCellId(ast.toString(baseCellId))\<close>.\<close>

definition refCellId :: "'n arith \<Rightarrow> cellref \<Rightarrow> string \<Rightarrow> error + string" where
  "refCellId A r baseCellId = map_sum id cellRefToCellId (astToString A (Ref r) baseCellId)"

text \<open>\<^verbatim>\<open>_evalAst\<close> on an AST; the arguments of an application are evaluated from left
  to right before the function is looked up and called.\<close>

fun evalAst :: "'n arith \<Rightarrow> string \<Rightarrow> 'n ast \<Rightarrow> 'n spreadsheet \<Rightarrow> (error + 'n) \<times> 'n spreadsheet"
  and evalKids :: "'n arith \<Rightarrow> string \<Rightarrow> 'n ast list \<Rightarrow> 'n spreadsheet \<Rightarrow> (error + 'n list) \<times> 'n spreadsheet"
where
  "evalAst A baseCellId (Num v) st = (Inr v, st)"
| "evalAst A baseCellId (Ref r) st =
     (case refCellId A r baseCellId of
        Inl e \<Rightarrow> (Inl e, st)
      | Inr cellId \<Rightarrow>
          (let (cell, st1) =
                 updateCell A cellId (\<lambda>c. c \<lparr> dependents := setAdd baseCellId (dependents c) \<rparr>) st
           in (Inr (val cell), st1)))"
| "evalAst A baseCellId (App fn kids) st =
     (case evalKids A baseCellId kids st of
        (Inl e, st1) \<Rightarrow> (Inl e, st1)
      | (Inr vs, st1) \<Rightarrow> (applyFn A fn vs, st1))"
| "evalKids A baseCellId [] st = (Inr [], st)"
| "evalKids A baseCellId (k # ks) st =
     (case evalAst A baseCellId k st of
        (Inl e, st1) \<Rightarrow> (Inl e, st1)
      | (Inr v, st1) \<Rightarrow>
          (case evalKids A baseCellId ks st1 of
             (Inl e, st2) \<Rightarrow> (Inl e, st2)
           | (Inr vs, st2) \<Rightarrow> (Inr (v # vs), st2)))"

text \<open>\<^verbatim>\<open>_evalAst\<close> on the \<^verbatim>\<open>ast\<close> field of a cell, which may be \<^verbatim>\<open>null\<close>.\<close>

definition evalAstOpt :: "'n arith \<Rightarrow> string \<Rightarrow> 'n ast option \<Rightarrow> 'n spreadsheet \<Rightarrow> (error + 'n) \<times> 'n spreadsheet" where
  "evalAstOpt A baseCellId a st =
     (case a of None \<Rightarrow> (Inr (numZero A), st) | Some x \<Rightarrow> evalAst A baseCellId x st)"

text \<open>\<^verbatim>\<open>_removeAsDependent\<close>.\<close>

fun removeAsDependent :: "'n arith \<Rightarrow> string \<Rightarrow> 'n ast \<Rightarrow> 'n spreadsheet \<Rightarrow> (error + unit) \<times> 'n spreadsheet"
  and removeKids :: "'n arith \<Rightarrow> string \<Rightarrow> 'n ast list \<Rightarrow> 'n spreadsheet \<Rightarrow> (error + unit) \<times> 'n spreadsheet"
where
  "removeAsDependent A baseCellId (App fn kids) st = removeKids A baseCellId kids st"
| "removeAsDependent A baseCellId (Ref r) st =
     (case refCellId A r baseCellId of
        Inl e \<Rightarrow> (Inl e, st)
      | Inr cellId \<Rightarrow>
          (Inr (), snd (updateCell A cellId
                          (\<lambda>c. c \<lparr> dependents := setDelete baseCellId (dependents c) \<rparr>) st)))"
| "removeAsDependent A baseCellId (Num v) st = (Inr (), st)"
| "removeKids A baseCellId [] st = (Inr (), st)"
| "removeKids A baseCellId (k # ks) st =
     (case removeAsDependent A baseCellId k st of
        (Inl e, st1) \<Rightarrow> (Inl e, st1)
      | (Inr u, st1) \<Rightarrow> removeKids A baseCellId ks st1)"

text \<open>\<^verbatim>\<open>Object.assign(target, source)\<close> on objects used as maps.\<close>

definition objectAssign :: "(string \<times> 'n) list \<Rightarrow> (string \<times> 'n) list \<Rightarrow> (string \<times> 'n) list" where
  "objectAssign target source = foldl (\<lambda>t kv. AList.update (fst kv) (snd kv) t) target source"

text \<open>
  \<^verbatim>\<open>_evalCell(cell, working)\<close>.  The cell object is named by the key \<open>k\<close> under which
  it sits in \<^verbatim>\<open>_cells\<close> (no object is replaced or removed during an evaluation), and
  \<^verbatim>\<open>cell.id\<close> is read from it.  \<open>evalDependents\<close> is the \<^verbatim>\<open>for ... of cell.dependents\<close>
  loop: a \<^verbatim>\<open>Set\<close> iterator also visits the elements added during the iteration, so every
  step reads the set again, at position \<open>i\<close>.  The set \<^verbatim>\<open>working\<close> is shared by all the
  calls; it is passed and returned.  The first argument bounds the depth of the calls
  and loop steps; \<open>None\<close> means that the bound was reached.
\<close>

definition liveDependents :: "'n spreadsheet \<Rightarrow> string \<Rightarrow> string list" where
  "liveDependents st k = (case map_of (cells st) k of None \<Rightarrow> [] | Some c \<Rightarrow> dependents c)"

definition undefinedCell :: error where
  "undefinedCell = TypeError ''Cannot read properties of undefined''"

function (sequential)
  evalCell :: "nat \<Rightarrow> 'n arith \<Rightarrow> string \<Rightarrow> string set \<Rightarrow> 'n spreadsheet
      \<Rightarrow> ((error + (string \<times> 'n) list \<times> string set) \<times> 'n spreadsheet) option"
  and evalDependents :: "nat \<Rightarrow> 'n arith \<Rightarrow> string \<Rightarrow> nat \<Rightarrow> string set \<Rightarrow> (string \<times> 'n) list
      \<Rightarrow> 'n spreadsheet \<Rightarrow> ((error + (string \<times> 'n) list \<times> string set) \<times> 'n spreadsheet) option"
where
  "evalCell 0 A k working st = None"
| "evalCell (Suc n) A k working st =
     (case map_of (cells st) k of
        None \<Rightarrow> Some (Inl undefinedCell, st)
      | Some cell \<Rightarrow>
          (case evalAstOpt A (cid cell) (ast cell) st of
             (Inl e, st1) \<Rightarrow> Some (Inl e, st1)
           | (Inr v, st1) \<Rightarrow>
               (let st2 = snd (updateCell A (cid cell) (\<lambda>c. c \<lparr> val := v \<rparr>) st1) in
                case evalDependents n A k 0 (insert (cid cell) working) [(cid cell, v)] st2 of
                  None \<Rightarrow> None
                | Some (Inl e, st3) \<Rightarrow> Some (Inl e, st3)
                | Some (Inr (vals, working1), st3) \<Rightarrow>
                    Some (Inr (vals, working1 - {cid cell}), st3))))"
| "evalDependents 0 A k i working vals st = None"
| "evalDependents (Suc n) A k i working vals st =
     (if i \<ge> length (liveDependents st k) then Some (Inr (vals, working), st)
      else
        (let dependent = liveDependents st k ! i in
         if dependent \<in> working
         then Some (Inl (AppError CIRCULAR_REF (''circular ref involving '' @ dependent)), st)
         else
           (case evalCell n A dependent working st of
              None \<Rightarrow> None
            | Some (Inl e, st1) \<Rightarrow> Some (Inl e, st1)
            | Some (Inr (vals1, working1), st1) \<Rightarrow>
                evalDependents n A k (Suc i) working1 (objectAssign vals vals1) st1)))"
  by pat_completeness auto
termination
  by (relation "measure (case_sum fst fst)") auto

section \<open>The public operations\<close>

text \<open>
  \<^verbatim>\<open>eval(baseCellId, formula, updateStore)\<close>.  The result is the value returned or the
  exception thrown, with the state left behind.  \<open>fuel\<close> bounds the depth of the
  evaluation (see \<open>evalCell\<close>).
\<close>

definition eval ::
  "nat \<Rightarrow> 'n arith \<Rightarrow> string \<Rightarrow> string \<Rightarrow> bool \<Rightarrow> 'n spreadsheet
     \<Rightarrow> ((error + (string \<times> 'n) list) \<times> 'n spreadsheet) option" where
  "eval fuel A baseCellId fml updateStore st0 =
     (let st = st0 \<lparr> undos := [] \<rparr>;
          cellId = cellRefToCellId baseCellId;
          oldAst = (case map_of (cells st) cellId of None \<Rightarrow> None | Some c \<Rightarrow> ast c)
      in case parseExpr A fml cellId of
           None \<Rightarrow> None
         | Some (Inl e) \<Rightarrow> Some (Inl e, undo st)
         | Some (Inr a) \<Rightarrow>
             (let st1 = snd (updateCell A cellId (\<lambda>c. c \<lparr> ast := Some a \<rparr>) st) in
              case (case oldAst of
                      None \<Rightarrow> (Inr (), st1)
                    | Some old \<Rightarrow> removeAsDependent A cellId old st1) of
                (Inl e, st2) \<Rightarrow> Some (Inl e, undo st2)
              | (Inr u, st2) \<Rightarrow>
                  (case evalCell fuel A cellId {} st2 of
                     None \<Rightarrow> None
                   | Some (Inl e, st3) \<Rightarrow> Some (Inl e, undo st3)
                   | Some (Inr (updates, w), st3) \<Rightarrow>
                       if store st3 \<noteq> None \<and> updateStore then
                         (case callStore (UpdateCell cellId fml) st3 of
                            (Some e, st4) \<Rightarrow> Some (Inl e, undo st4)
                          | (None, st4) \<Rightarrow> Some (Inr updates, st4))
                       else Some (Inr updates, st3))))"

text \<open>\<^verbatim>\<open>query(cellId)\<close>.\<close>

definition query :: "'n arith \<Rightarrow> string \<Rightarrow> 'n spreadsheet \<Rightarrow> error + 'n \<times> string" where
  "query A cellId0 st =
     (case map_of (cells st) (toLowerCase cellId0) of
        None \<Rightarrow> Inr (numZero A, [])
      | Some cell \<Rightarrow> map_sum id (Pair (val cell)) (formula A cell))"

text \<open>\<^verbatim>\<open>clear()\<close>.\<close>

definition clear :: "'n spreadsheet \<Rightarrow> (error + unit) \<times> 'n spreadsheet" where
  "clear st =
     (case callStore ClearAll st of
        (Some e, st1) \<Rightarrow> (Inl e, st1)
      | (None, st1) \<Rightarrow> (Inr (), st1 \<lparr> undos := [], cells := [] \<rparr>))"

text \<open>
  \<^verbatim>\<open>delete(cellId)\<close>.  There is no \<^verbatim>\<open>try\<close> in it: an exception leaves the state as it
  is at that point.  \<open>deleteLoop\<close> is the loop over the dependents of the removed cell
  (the \<^verbatim>\<open>Set\<close> of the removed object, which nothing changes any more).  A lookup in
  \<^verbatim>\<open>_cells\<close> also finds the properties inherited from \<^verbatim>\<open>Object.prototype\<close>: for such an
  id the test succeeds, \<^verbatim>\<open>dependents\<close> is \<^verbatim>\<open>undefined\<close>, the update function removes
  the property named by \<^verbatim>\<open>cell.id\<close>, which is \<^verbatim>\<open>undefined\<close>, and the loop throws.
\<close>

fun deleteLoop ::
  "nat \<Rightarrow> 'n arith \<Rightarrow> string list \<Rightarrow> (string \<times> 'n) list \<Rightarrow> 'n spreadsheet
     \<Rightarrow> ((error + (string \<times> 'n) list) \<times> 'n spreadsheet) option" where
  "deleteLoop fuel A [] results st = Some (Inr results, st)"
| "deleteLoop fuel A (dependent # ds) results st =
     (case map_of (cells st) dependent of
        None \<Rightarrow> Some (Inl undefinedCell, st)
      | Some c \<Rightarrow>
          (case formula A c of
             Inl e \<Rightarrow> Some (Inl e, st)
           | Inr f \<Rightarrow>
               (case eval fuel A dependent f True st of
                  None \<Rightarrow> None
                | Some (Inl e, st1) \<Rightarrow> Some (Inl e, st1)
                | Some (Inr updates, st1) \<Rightarrow>
                    deleteLoop fuel A ds (objectAssign results updates) st1)))"

definition storeDelete ::
  "string \<Rightarrow> (string \<times> 'n) list \<Rightarrow> 'n spreadsheet \<Rightarrow> ((error + (string \<times> 'n) list) \<times> 'n spreadsheet) option" where
  "storeDelete cellId results st =
     (case callStore (DeleteCell cellId) st of
        (Some e, st1) \<Rightarrow> Some (Inl e, st1)
      | (None, st1) \<Rightarrow> Some (Inr results, st1))"

definition notIterable :: error where
  "notIterable = TypeError ''undefined is not iterable''"

definition delete ::
  "nat \<Rightarrow> 'n arith \<Rightarrow> string \<Rightarrow> 'n spreadsheet
     \<Rightarrow> ((error + (string \<times> 'n) list) \<times> 'n spreadsheet) option" where
  "delete fuel A cellId0 st0 =
     (let cellId = toLowerCase cellId0;
          st = st0 \<lparr> undos := [] \<rparr>
      in case map_of (cells st) cellId of
           None \<Rightarrow>
             if cellId \<in> set objectProtoNames
             then Some (Inl notIterable, st \<lparr> cells := AList.delete ''undefined'' (cells st) \<rparr>)
             else storeDelete cellId [] st
         | Some cell \<Rightarrow>
             (let st1 = recordUndo cellId st;
                  st2 = st1 \<lparr> cells := AList.delete (cid cell) (cells st1) \<rparr>
              in case deleteLoop fuel A (dependents cell) [] st2 of
                   None \<Rightarrow> None
                 | Some (Inl e, st3) \<Rightarrow> Some (Inl e, st3)
                 | Some (Inr results, st3) \<Rightarrow> storeDelete cellId results st3))"

text \<open>\<^verbatim>\<open>copy(destCellId, srcCellId)\<close>.\<close>

definition copy ::
  "nat \<Rightarrow> 'n arith \<Rightarrow> string \<Rightarrow> string \<Rightarrow> 'n spreadsheet
     \<Rightarrow> ((error + (string \<times> 'n) list) \<times> 'n spreadsheet) option" where
  "copy fuel A destCellId0 srcCellId0 st0 =
     (let destCellId = toLowerCase destCellId0;
          srcCellId = toLowerCase srcCellId0;
          st = st0 \<lparr> undos := [] \<rparr>
      in case map_of (cells st) srcCellId of
           None \<Rightarrow> delete fuel A destCellId st
         | Some srcCell \<Rightarrow>
             (case formula A srcCell of
                Inl e \<Rightarrow> Some (Inl e, st)
              | Inr f \<Rightarrow>
                  (case ast srcCell of
                     None \<Rightarrow> delete fuel A destCellId st
                   | Some a \<Rightarrow>
                       if f = [] then delete fuel A destCellId st
                       else
                         (case astToString A a destCellId of
                            Inr destFormula \<Rightarrow> eval fuel A destCellId destFormula True st
                          | Inl err \<Rightarrow>
                              if err_code err = Some SYNTAX then
                                (case astToString A a srcCellId of
                                   Inl e2 \<Rightarrow> Some (Inl e2, st)
                                 | Inr srcFormula \<Rightarrow>
                                     Some (Inl (AppError SYNTAX
                                       (''cannot copy formula '' @ srcFormula @ '' to '' @
                                        destCellId @ '': '' @ err_message err)), st))
                              else Some (Inl err, st)))))"

section \<open>An arithmetic for closed examples\<close>

text \<open>
  The numbers of JavaScript are the IEEE doubles.  The doubles that are integers of
  magnitude below \<^verbatim>\<open>2^53\<close> are \<open>Exact n\<close>, with \<open>Exact 0\<close> the positive zero and \<open>NegZero\<close>
  the negative one.  Every other finite double is \<open>Double m e\<close>, the number \<open>m * 2 ^ e\<close>
  with \<open>m\<close> odd, of either sign.  \<open>Infinity\<close>, \<open>NegInfinity\<close> and \<open>NaN\<close> are the three
  values that are not finite.  \<open>Other\<close> is a value that is not a number: three of the
  properties that the evaluator's table inherits return one when they are called, and
  what JavaScript computes from such a value is not followed, the result is \<open>Other\<close>
  again.
\<close>

datatype jsnum = Exact int | Double int int | Infinity | NegInfinity | NegZero | NaN | Other

text \<open>
  \<^verbatim>\<open>Number(lexeme)\<close> for a numeric literal is the double nearest to the decimal number
  that the literal denotes, ties going to the even significand, and \<^verbatim>\<open>Infinity\<close> from
  \<^verbatim>\<open>2^1024\<close> on.  \<open>toDouble num den\<close> is that double for the fraction \<open>num / den\<close>: the
  significand has 53 bits, or fewer at the least exponent \<open>- 1074\<close>.
\<close>

definition readInt :: "string \<Rightarrow> int" where
  "readInt s = foldl (\<lambda>a c. 10 * a + int (digitVal c)) 0 s"

function showDigits :: "int \<Rightarrow> string" where
  "showDigits n =
     (if n < 10 then [digitChar (nat n)] else showDigits (n div 10) @ [digitChar (nat (n mod 10))])"
  by pat_completeness auto
termination
  by (relation "measure nat") auto

declare showDigits.simps [simp del]

function bits :: "int \<Rightarrow> int" where
  "bits n = (if n \<le> 0 then 0 else 1 + bits (n div 2))"
  by pat_completeness auto
termination
  by (relation "measure nat") auto

declare bits.simps [simp del]

definition scale2 :: "int \<Rightarrow> int \<Rightarrow> int \<Rightarrow> int \<times> int" where
  "scale2 num den e = (if 0 \<le> e then (num, den * 2 ^ nat e) else (num * 2 ^ nat (- e), den))"

definition scale10 :: "int \<Rightarrow> int \<Rightarrow> int \<Rightarrow> int \<times> int" where
  "scale10 num den e = (if 0 \<le> e then (num, den * 10 ^ nat e) else (num * 10 ^ nat (- e), den))"

definition roundHalfEven :: "int \<Rightarrow> int \<Rightarrow> int" where
  "roundHalfEven n d =
     (let q = n div d; r = n mod d
      in if d < 2 * r \<or> (2 * r = d \<and> odd q) then q + 1 else q)"

function stripTwos :: "int \<Rightarrow> int \<Rightarrow> int \<times> int" where
  "stripTwos m e = (if m \<le> 0 \<or> odd m then (m, e) else stripTwos (m div 2) (e + 1))"
  by pat_completeness auto
termination
  by (relation "measure (\<lambda>(m, e). nat m)") auto

declare stripTwos.simps [simp del]

definition normDouble :: "int \<Rightarrow> int \<Rightarrow> jsnum" where
  "normDouble m0 e0 =
     (let (m, e) = stripTwos m0 e0
      in if m \<le> 0 then Exact 0
         else if 1024 < bits m + e then Infinity
         else if 0 \<le> e \<and> bits m + e \<le> 53 then Exact (m * 2 ^ nat e)
         else Double m e)"

definition toDouble :: "int \<Rightarrow> int \<Rightarrow> jsnum" where
  "toDouble num den =
     (if num \<le> 0 then Exact 0
      else
        let e0 = bits num - bits den - 53;
            (n0, d0) = scale2 num den e0;
            e1 = (if 2 ^ 53 \<le> n0 div d0 then e0 + 1 else e0);
            e = max e1 (- 1074);
            (n1, d1) = scale2 num den e
        in normDouble (roundHalfEven n1 d1) e)"

definition decimalToDouble :: "int \<Rightarrow> int \<Rightarrow> jsnum" where
  "decimalToDouble m x = (if 0 \<le> x then toDouble (m * 10 ^ nat x) 1 else toDouble m (10 ^ nat (- x)))"

text \<open>The value of the exponent part of a literal, which is empty or an \<^verbatim>\<open>e\<close>, an
  optional sign and digits.\<close>

definition expValue :: "string \<Rightarrow> int" where
  "expValue ex =
     (case ex of
        c # s # ds \<Rightarrow>
          if s = CHR ''-'' then - readInt ds
          else if s = CHR ''+'' then readInt ds
          else readInt (s # ds)
      | _ \<Rightarrow> 0)"

text \<open>The scanner passes the lexemes of its number pattern only; the parts are those
  of \<open>matchNum\<close>.  On any other string but the empty one \<^verbatim>\<open>Number\<close> is not followed.\<close>

definition jsNumber :: "string \<Rightarrow> jsnum" where
  "jsNumber lx =
     (if list_all isDigit lx \<and> readInt lx < 2 ^ 53 then Exact (readInt lx)
      else
        let ip = takeWhile isDigit lx;
            (fr, r2) = matchFrac (dropWhile isDigit lx);
            (ex, r3) = matchExp r2
        in if ip = [] \<or> r3 \<noteq> [] then Other
           else decimalToDouble (readInt (ip @ drop 1 fr))
                  (expValue ex - int (length (drop 1 fr))))"

text \<open>
  The operators are those of IEEE arithmetic: the exact result, a fraction, is rounded
  to the nearest double.  A zero result of an addition is positive unless both
  summands are the negative zero; the sign of a product or a quotient is the product
  of the signs, also of a zero or an infinity; the undefined forms are \<^verbatim>\<open>NaN\<close>, and a
  \<^verbatim>\<open>NaN\<close> operand gives \<^verbatim>\<open>NaN\<close>.  \<open>signedDouble neg num den\<close> is the double nearest to
  the positive fraction \<open>num / den\<close>, negated when \<open>neg\<close> holds.
\<close>

definition isNeg :: "jsnum \<Rightarrow> bool" where
  "isNeg v =
     (case v of
        Exact i \<Rightarrow> i < 0
      | Double m e \<Rightarrow> m < 0
      | NegInfinity \<Rightarrow> True
      | NegZero \<Rightarrow> True
      | _ \<Rightarrow> False)"

text \<open>A finite number as a fraction with a positive denominator.\<close>

definition ratOf :: "jsnum \<Rightarrow> (int \<times> int) option" where
  "ratOf v =
     (case v of
        Exact i \<Rightarrow> Some (i, 1)
      | Double m e \<Rightarrow> Some (if 0 \<le> e then (m * 2 ^ nat e, 1) else (m, 2 ^ nat (- e)))
      | NegZero \<Rightarrow> Some (0, 1)
      | _ \<Rightarrow> None)"

definition signedZero :: "bool \<Rightarrow> jsnum" where
  "signedZero neg = (if neg then NegZero else Exact 0)"

definition signedInfinity :: "bool \<Rightarrow> jsnum" where
  "signedInfinity neg = (if neg then NegInfinity else Infinity)"

definition signedDouble :: "bool \<Rightarrow> int \<Rightarrow> int \<Rightarrow> jsnum" where
  "signedDouble neg num den =
     (if den dvd num \<and> num div den < 2 ^ 53
      then Exact (if neg then - (num div den) else num div den)
      else
        (case toDouble num den of
           Exact i \<Rightarrow> if i = 0 then signedZero neg else Exact (if neg then - i else i)
         | Double m e \<Rightarrow> Double (if neg then - m else m) e
         | _ \<Rightarrow> signedInfinity neg))"

definition jsNeg :: "jsnum \<Rightarrow> jsnum" where
  "jsNeg v =
     (case v of
        Exact i \<Rightarrow> if i = 0 then NegZero else Exact (- i)
      | Double m e \<Rightarrow> Double (- m) e
      | Infinity \<Rightarrow> NegInfinity
      | NegInfinity \<Rightarrow> Infinity
      | NegZero \<Rightarrow> Exact 0
      | NaN \<Rightarrow> NaN
      | Other \<Rightarrow> Other)"

definition jsAdd :: "jsnum \<Rightarrow> jsnum \<Rightarrow> jsnum" where
  "jsAdd x y =
     (if x = Other \<or> y = Other then Other
      else if x = NaN \<or> y = NaN then NaN
      else
        (case (ratOf x, ratOf y) of
           (Some (a, b), Some (c, d)) \<Rightarrow>
             let n = a * d + c * b
             in if n = 0 then signedZero (x = NegZero \<and> y = NegZero)
                else signedDouble (n < 0) \<bar>n\<bar> (b * d)
         | (Some _, None) \<Rightarrow> y
         | (None, Some _) \<Rightarrow> x
         | (None, None) \<Rightarrow> if x = y then x else NaN))"

definition jsSub :: "jsnum \<Rightarrow> jsnum \<Rightarrow> jsnum" where
  "jsSub x y = jsAdd x (jsNeg y)"

definition jsMul :: "jsnum \<Rightarrow> jsnum \<Rightarrow> jsnum" where
  "jsMul x y =
     (if x = Other \<or> y = Other then Other
      else if x = NaN \<or> y = NaN then NaN
      else
        let neg = (isNeg x \<noteq> isNeg y)
        in case (ratOf x, ratOf y) of
             (Some (a, b), Some (c, d)) \<Rightarrow>
               if a * c = 0 then signedZero neg else signedDouble neg \<bar>a * c\<bar> (b * d)
           | (Some (a, b), None) \<Rightarrow> if a = 0 then NaN else signedInfinity neg
           | (None, Some (c, d)) \<Rightarrow> if c = 0 then NaN else signedInfinity neg
           | (None, None) \<Rightarrow> signedInfinity neg)"

definition jsDiv :: "jsnum \<Rightarrow> jsnum \<Rightarrow> jsnum" where
  "jsDiv x y =
     (if x = Other \<or> y = Other then Other
      else if x = NaN \<or> y = NaN then NaN
      else
        let neg = (isNeg x \<noteq> isNeg y)
        in case (ratOf x, ratOf y) of
             (Some (a, b), Some (c, d)) \<Rightarrow>
               if c = 0 then (if a = 0 then NaN else signedInfinity neg)
               else if a = 0 then signedZero neg
               else signedDouble neg (\<bar>a\<bar> * d) (b * \<bar>c\<bar>)
           | (Some _, None) \<Rightarrow> signedZero neg
           | (None, Some _) \<Rightarrow> signedInfinity neg
           | (None, None) \<Rightarrow> NaN)"

text \<open>\<^verbatim>\<open>Math.min\<close> and \<^verbatim>\<open>Math.max\<close>: \<^verbatim>\<open>NaN\<close> if an argument is, the negative zero below the
  positive one, and the infinities for no argument at all.\<close>

definition numLess :: "jsnum \<Rightarrow> jsnum \<Rightarrow> bool" where
  "numLess x y =
     (case (ratOf x, ratOf y) of
        (Some (a, b), Some (c, d)) \<Rightarrow> a * d < c * b \<or> (x = NegZero \<and> y = Exact 0)
      | (Some _, None) \<Rightarrow> y = Infinity
      | (None, Some _) \<Rightarrow> x = NegInfinity
      | (None, None) \<Rightarrow> x = NegInfinity \<and> y = Infinity)"

definition jsMin :: "jsnum list \<Rightarrow> jsnum" where
  "jsMin args =
     (if Other \<in> set args then Other
      else if NaN \<in> set args then NaN
      else fold (\<lambda>v acc. if numLess v acc then v else acc) args Infinity)"

definition jsMax :: "jsnum list \<Rightarrow> jsnum" where
  "jsMax args =
     (if Other \<in> set args then Other
      else if NaN \<in> set args then NaN
      else fold (\<lambda>v acc. if numLess acc v then v else acc) args NegInfinity)"

text \<open>
  The evaluator's table.  A parameter without an argument is \<^verbatim>\<open>undefined\<close>, which the
  operators read as \<^verbatim>\<open>NaN\<close>; the second parameter of \<^verbatim>\<open>-\<close> defaults to \<^verbatim>\<open>null\<close>, and then
  the result is the negated first argument.  A function name that is not an own key
  of the table is an inherited property (or \<^verbatim>\<open>undefined\<close>): three of them return
  something that is not a number, a call of any other one throws.
\<close>

definition argAt :: "jsnum list \<Rightarrow> nat \<Rightarrow> jsnum" where
  "argAt args i = (if i < length args then args ! i else NaN)"

definition jsApply :: "string \<Rightarrow> jsnum list \<Rightarrow> error + jsnum" where
  "jsApply fn args =
     (if fn = ''+'' then Inr (jsAdd (argAt args 0) (argAt args 1))
      else if fn = ''-'' then
        Inr (if length args < 2 then jsNeg (argAt args 0)
             else jsSub (argAt args 0) (argAt args 1))
      else if fn = ''*'' then Inr (jsMul (argAt args 0) (argAt args 1))
      else if fn = ''/'' then Inr (jsDiv (argAt args 0) (argAt args 1))
      else if fn = ''min'' then Inr (jsMin args)
      else if fn = ''max'' then Inr (jsMax args)
      else if fn \<in> {''constructor'', ''toString'', ''isPrototypeOf''} then Inr Other
      else Inl (TypeError ''not a function, or called on undefined''))"

text \<open>
  \<^verbatim>\<open>value.toString()\<close> of a positive double: the digits of the least number \<open>k\<close> of
  digits such that \<open>s * 10 ^ (n - k)\<close> is read as the same double, the nearest such \<open>s\<close>
  (the even one of two), laid out as the language standard prescribes: plain digits up
  to \<^verbatim>\<open>10^21\<close>, a leading \<^verbatim>\<open>0.\<close> down to \<^verbatim>\<open>10^-6\<close>, an exponent otherwise.
\<close>

definition ltPow10 :: "int \<Rightarrow> int \<Rightarrow> int \<Rightarrow> bool" where
  "ltPow10 num den n = (if 0 \<le> n then num < den * 10 ^ nat n else num * 10 ^ nat (- n) < den)"

definition decExp :: "int \<Rightarrow> int \<Rightarrow> int" where
  "decExp num den =
     (let n0 = ((bits num - bits den - 1) * 30103) div 100000
      in if ltPow10 num den n0 then n0
         else if ltPow10 num den (n0 + 1) then n0 + 1
         else if ltPow10 num den (n0 + 2) then n0 + 2
         else n0 + 3)"

fun shortest :: "nat \<Rightarrow> nat \<Rightarrow> jsnum \<Rightarrow> int \<Rightarrow> int \<Rightarrow> int \<Rightarrow> int \<times> nat" where
  "shortest 0 k v num den n = (0, k)"
| "shortest (Suc fuel) k v num den n =
     (let (sn, sd) = scale10 num den (n - int k);
          lo = sn div sd;
          r = sn mod sd;
          okLo = (decimalToDouble lo (n - int k) = v);
          okHi = (decimalToDouble (lo + 1) (n - int k) = v)
      in if okLo \<and> okHi then
           (if 2 * r < sd \<or> (2 * r = sd \<and> even lo) then (lo, k) else (lo + 1, k))
         else if okLo then (lo, k)
         else if okHi then (lo + 1, k)
         else shortest fuel (Suc k) v num den n)"

definition formatDigits :: "string \<Rightarrow> int \<Rightarrow> string" where
  "formatDigits ds n =
     (let k = int (length ds)
      in if k \<le> n \<and> n \<le> 21 then ds @ replicate (nat (n - k)) CHR ''0''
         else if 0 < n \<and> n \<le> 21 then take (nat n) ds @ ''.'' @ drop (nat n) ds
         else if - 6 < n \<and> n \<le> 0 then ''0.'' @ replicate (nat (- n)) CHR ''0'' @ ds
         else (if k = 1 then ds else take 1 ds @ ''.'' @ drop 1 ds) @ ''e'' @
              (if 0 \<le> n - 1 then ''+'' else ''-'') @ showDigits \<bar>n - 1\<bar>)"

definition showDouble :: "int \<Rightarrow> int \<Rightarrow> string" where
  "showDouble m e =
     (let (num, den) = scale2 m 1 (- e);
          n = decExp num den;
          (s, k) = shortest 17 1 (Double m e) num den n
      in if s = 10 ^ k then formatDigits ''1'' (n + 1) else formatDigits (showDigits s) n)"

text \<open>No \<open>Num\<close> node holds a value that is not a number, so the last clause is never
  used.\<close>

definition jsToString :: "jsnum \<Rightarrow> string" where
  "jsToString v =
     (case v of
        Exact i \<Rightarrow> showInt i
      | Double m e \<Rightarrow> if m < 0 then CHR ''-'' # showDouble (- m) e else showDouble m e
      | Infinity \<Rightarrow> ''Infinity''
      | NegInfinity \<Rightarrow> ''-Infinity''
      | NegZero \<Rightarrow> ''0''
      | NaN \<Rightarrow> ''NaN''
      | Other \<Rightarrow> ''NaN'')"

definition jsArith :: "jsnum arith" where
  "jsArith = \<lparr> numOfLexeme = jsNumber, numToString = jsToString, numZero = Exact 0,
               applyFn = jsApply \<rparr>"

text \<open>The value of a numeric literal is a number of this arithmetic.\<close>

lemma toDouble_not_Other: "toDouble num den \<noteq> Other"
  by (simp add: toDouble_def normDouble_def Let_def split: prod.splits)

lemma jsNumber_literal:
  assumes "isDigit c" and "matchNum (c # cs) = (c # cs, [])"
  shows "jsNumber (c # cs) \<noteq> Other"
proof -
  obtain fr r2 where f: "matchFrac (dropWhile isDigit (c # cs)) = (fr, r2)"
    by (cases "matchFrac (dropWhile isDigit (c # cs))")
  obtain ex r3 where e: "matchExp r2 = (ex, r3)" by (cases "matchExp r2")
  have "r3 = []" using assms(2) f e by (simp add: matchNum_def)
  moreover have "takeWhile isDigit (c # cs) \<noteq> []" using assms(1) by simp
  ultimately show ?thesis
    using f e toDouble_not_Other
    by (simp add: jsNumber_def decimalToDouble_def Let_def del: takeWhile.simps dropWhile.simps)
qed

text \<open>Some literals: an exponent, fractions, a number above \<^verbatim>\<open>10^21\<close>, one below
  \<^verbatim>\<open>10^-6\<close>, and one with more digits than a double holds.\<close>

lemma jsNumber_examples:
  "jsNumber ''1e2'' = Exact 100"
  "jsNumber ''1.5'' = Double 3 (- 1)"
  "jsToString (Double 3 (- 1)) = ''1.5''"
  "jsToString (jsNumber ''0.1'') = ''0.1''"
  "jsToString (jsNumber ''2.50'') = ''2.5''"
  "jsToString (jsNumber ''1e21'') = ''1e+21''"
  "jsToString (jsNumber ''0.0000001'') = ''1e-7''"
  "jsToString (jsNumber ''9007199254740993'') = ''9007199254740992''"
  by code_simp+

text \<open>Some results of the operators: a sum and a quotient that are rounded, a sum
  above \<^verbatim>\<open>2^53\<close>, the quotients by zero, the negative zero, and a formula with a
  quotient that is not an integer.\<close>

lemma jsApply_examples:
  "map_sum id jsToString (jsApply ''+'' [jsNumber ''0.1'', jsNumber ''0.2'']) =
     Inr ''0.30000000000000004''"
  "map_sum id jsToString (jsApply ''/'' [Exact 1, Exact 3]) = Inr ''0.3333333333333333''"
  "map_sum id jsToString (jsApply ''-'' [jsNumber ''0.1'', jsNumber ''0.3'']) =
     Inr ''-0.19999999999999998''"
  "map_sum id jsToString (jsApply ''+'' [jsNumber ''9007199254740992'', Exact 3]) =
     Inr ''9007199254740996''"
  "jsApply ''/'' [Exact 10, Exact 4] = Inr (Double 5 (- 1))"
  "jsApply ''/'' [Exact 1, Exact 0] = Inr Infinity"
  "jsApply ''/'' [Exact (- 1), Exact 0] = Inr NegInfinity"
  "jsApply ''/'' [Exact 0, Exact 0] = Inr NaN"
  "jsApply ''*'' [Exact 0, Exact (- 5)] = Inr NegZero"
  "jsApply ''-'' [Exact 0] = Inr NegZero"
  "jsApply ''-'' [Exact 7, Exact 7] = Inr (Exact 0)"
  "jsApply ''min'' [Exact 1, Double 1 (- 1)] = Inr (Double 1 (- 1))"
  "jsApply ''max'' [NegZero, Exact 0] = Inr (Exact 0)"
  "jsApply ''max'' [] = Inr NegInfinity"
  "map_option fst (eval 3 jsArith ''a1'' ''10/4+1'' True (newSpreadsheet None)) =
     Some (Inr [(''a1'', Double 7 (- 1))])"
  by code_simp+

text \<open>A formula with a fraction is printed as it was written, and so it is copied.\<close>

lemma fraction_example:
  "\<exists>st. eval 2 jsArith ''a1'' ''1.5'' True (newSpreadsheet None) =
            Some (Inr [(''a1'', Double 3 (- 1))], st) \<and>
        query jsArith ''a1'' st = Inr (Double 3 (- 1), ''1.5'') \<and>
        map_option fst (copy 2 jsArith ''b1'' ''a1'' st) = Some (Inr [(''b1'', Double 3 (- 1))])"
proof -
  let ?st = "\<lparr> store = None, storeLog = [],
               cells = [(''a1'', \<lparr> cid = ''a1'', val = Double 3 (- 1),
                                   ast = Some (Num (Double 3 (- 1))), dependents = [] \<rparr>)],
               undos = [(''a1'', None)] \<rparr>"
  have 1: "eval 2 jsArith ''a1'' ''1.5'' True (newSpreadsheet None) =
            Some (Inr [(''a1'', Double 3 (- 1))], ?st)"
    by code_simp
  have 2: "query jsArith ''a1'' ?st = Inr (Double 3 (- 1), ''1.5'')"
    by code_simp
  have 3: "map_option fst (copy 2 jsArith ''b1'' ''a1'' ?st) = Some (Inr [(''b1'', Double 3 (- 1))])"
    by code_simp
  from 1 2 3 show ?thesis by blast
qed

section \<open>More fuel changes nothing\<close>

lemma evalCell_evalDependents_mono:
  "(evalCell n A k w st = Some r \<longrightarrow> evalCell (n + m) A k w st = Some r) \<and>
   (evalDependents n A k i w vals st = Some r \<longrightarrow> evalDependents (n + m) A k i w vals st = Some r)"
proof (induction n arbitrary: k w st r i vals)
  case 0
  show ?case by simp
next
  case (Suc n)
  have c: "evalCell n A k' w' st' = Some r' \<Longrightarrow> evalCell (n + m) A k' w' st' = Some r'"
    for k' w' st' r' using Suc by blast
  have d: "evalDependents n A k' i' w' v' st' = Some r' \<Longrightarrow>
           evalDependents (n + m) A k' i' w' v' st' = Some r'"
    for k' w' st' r' i' v' using Suc by blast
  have 1: "evalCell (Suc (n + m)) A k w st = Some r" if H: "evalCell (Suc n) A k w st = Some r"
  proof (cases "map_of (cells st) k")
    case None
    then show ?thesis using H by simp
  next
    case (Some cell)
    obtain res st1 where e: "evalAstOpt A (cid cell) (ast cell) st = (res, st1)"
      by (cases "evalAstOpt A (cid cell) (ast cell) st")
    show ?thesis
    proof (cases res)
      case (Inl a)
      then show ?thesis using H Some e by simp
    next
      case (Inr v)
      let ?st2 = "snd (updateCell A (cid cell) (\<lambda>c. c \<lparr> val := v \<rparr>) st1)"
      show ?thesis
      proof (cases "evalDependents n A k 0 (insert (cid cell) w) [(cid cell, v)] ?st2")
        case None
        then show ?thesis using H Some e Inr by (simp add: Let_def)
      next
        case (Some y)
        then show ?thesis using H \<open>map_of (cells st) k = Some cell\<close> e Inr d [OF Some]
          by (simp add: Let_def)
      qed
    qed
  qed
  have 2: "evalDependents (Suc (n + m)) A k i w vals st = Some r"
    if H: "evalDependents (Suc n) A k i w vals st = Some r"
  proof (cases "i \<ge> length (liveDependents st k) \<or> liveDependents st k ! i \<in> w")
    case True
    then show ?thesis using H by (auto simp: Let_def)
  next
    case False
    show ?thesis
    proof (cases "evalCell n A (liveDependents st k ! i) w st")
      case None
      then show ?thesis using H False by (simp add: Let_def)
    next
      case (Some y)
      note c1 = c [OF Some]
      obtain res st1 where y: "y = (res, st1)" by (cases y)
      show ?thesis
      proof (cases res)
        case (Inl a)
        then show ?thesis using H False Some c1 y by (auto simp: Let_def)
      next
        case (Inr p)
        obtain vals1 w1 where p: "p = (vals1, w1)" by (cases p)
        have "evalDependents n A k (Suc i) w1 (objectAssign vals vals1) st1 = Some r"
          using H False Some y Inr p by (simp add: Let_def)
        from d [OF this] show ?thesis using False c1 y Inr p by (simp add: Let_def)
      qed
    qed
  qed
  from 1 2 show ?case by simp
qed

lemma evalCell_mono:
  "evalCell n A k w st = Some r \<Longrightarrow> evalCell (n + m) A k w st = Some r"
  using evalCell_evalDependents_mono by blast

lemma eval_mono:
  assumes "eval n A b f u st = Some r"
  shows "eval (n + m) A b f u st = Some r"
proof (cases "parseExpr A f (cellRefToCellId b)")
  case None
  then show ?thesis using assms by (simp add: eval_def Let_def)
next
  case (Some pr)
  show ?thesis
  proof (cases pr)
    case (Inl e)
    then show ?thesis using assms Some by (simp add: eval_def Let_def)
  next
    case (Inr a)
    define st0 where "st0 = st \<lparr> undos := [] \<rparr>"
    define cellId where "cellId = cellRefToCellId b"
    define st1 where "st1 = snd (updateCell A cellId (\<lambda>c. c \<lparr> ast := Some a \<rparr>) st0)"
    define rm where "rm = (case (case map_of (cells st0) cellId of None \<Rightarrow> None | Some c \<Rightarrow> ast c) of
                      None \<Rightarrow> (Inr (), st1)
                    | Some old \<Rightarrow> removeAsDependent A cellId old st1)"
    obtain rr st2 where rm2: "rm = (rr, st2)" by (cases rm)
    have unf: "eval n' A b f u st =
       (case rr of Inl e \<Rightarrow> Some (Inl e, undo st2)
        | Inr _ \<Rightarrow> (case evalCell n' A cellId {} st2 of
                     None \<Rightarrow> None
                   | Some (Inl e, st3) \<Rightarrow> Some (Inl e, undo st3)
                   | Some (Inr (updates, w), st3) \<Rightarrow>
                       if store st3 \<noteq> None \<and> u then
                         (case callStore (UpdateCell cellId f) st3 of
                            (Some e, st4) \<Rightarrow> Some (Inl e, undo st4)
                          | (None, st4) \<Rightarrow> Some (Inr updates, st4))
                       else Some (Inr updates, st3)))" for n'
      using Some Inr rm2 unfolding eval_def Let_def rm_def st1_def cellId_def st0_def
      by (simp split: sum.splits)
    show ?thesis
    proof (cases rr)
      case (Inl e)
      then show ?thesis using assms unf by simp
    next
      case (Inr x)
      show ?thesis
      proof (cases "evalCell n A cellId {} st2")
        case None
        then show ?thesis using assms unf Inr by simp
      next
        case (Some y)
        from evalCell_mono [OF Some] show ?thesis using assms unf Inr Some by simp
      qed
    qed
  qed
qed

lemma deleteLoop_mono:
  "deleteLoop n A ds res st = Some r \<Longrightarrow> deleteLoop (n + m) A ds res st = Some r"
proof (induction ds arbitrary: res st)
  case Nil
  then show ?case by simp
next
  case (Cons d ds)
  show ?case
  proof (cases "map_of (cells st) d")
    case None
    then show ?thesis using Cons.prems by simp
  next
    case (Some c)
    show ?thesis
    proof (cases "formula A c")
      case (Inl e)
      then show ?thesis using Cons.prems Some by simp
    next
      case (Inr f)
      show ?thesis
      proof (cases "eval n A d f True st")
        case None
        then show ?thesis using Cons.prems Some Inr by simp
      next
        case (Some y)
        note e = eval_mono [OF Some, of m]
        obtain res1 st1 where y: "y = (res1, st1)" by (cases y)
        show ?thesis
        proof (cases res1)
          case (Inl e1)
          then show ?thesis using Cons.prems \<open>map_of (cells st) d = Some c\<close> \<open>formula A c = Inr f\<close> Some e y by auto
        next
          case (Inr ups)
          have "deleteLoop n A ds (objectAssign res ups) st1 = Some r"
            using Cons.prems \<open>map_of (cells st) d = Some c\<close> \<open>formula A c = Inr f\<close> Some y Inr by simp
          from Cons.IH [OF this] show ?thesis
            using \<open>map_of (cells st) d = Some c\<close> \<open>formula A c = Inr f\<close> e y Inr by simp
        qed
      qed
    qed
  qed
qed

lemma delete_mono:
  assumes "delete n A c st = Some r"
  shows "delete (n + m) A c st = Some r"
proof (cases "map_of (cells st) (toLowerCase c)")
  case None
  then show ?thesis using assms by (simp add: delete_def Let_def)
next
  case (Some cell)
  define st2 where "st2 = (recordUndo (toLowerCase c) (st \<lparr> undos := [] \<rparr>))
      \<lparr> cells := AList.delete (cid cell) (cells (recordUndo (toLowerCase c) (st \<lparr> undos := [] \<rparr>))) \<rparr>"
  have unf: "delete n' A c st =
     (case deleteLoop n' A (dependents cell) [] st2 of
                   None \<Rightarrow> None
                 | Some (Inl e, st3) \<Rightarrow> Some (Inl e, st3)
                 | Some (Inr results, st3) \<Rightarrow> storeDelete (toLowerCase c) results st3)" for n'
    using Some by (simp add: delete_def Let_def st2_def)
  show ?thesis
  proof (cases "deleteLoop n A (dependents cell) [] st2")
    case None
    then show ?thesis using assms unf by simp
  next
    case (Some y)
    from deleteLoop_mono [OF Some] show ?thesis using assms unf Some by simp
  qed
qed

lemma copy_mono:
  "copy n A d s st = Some r \<Longrightarrow> copy (n + m) A d s st = Some r"
  unfolding copy_def Let_def
  by (auto split: option.splits sum.splits if_splits
      simp: delete_mono [where m = m] eval_mono [where m = m])

section \<open>Scenarios on an empty sheet\<close>

text \<open>
  The closed statements below run the operations with the arithmetic \<open>jsArith\<close> on a
  sheet without a store (\<open>newSpreadsheet None\<close>) unless the store matters.  A relative
  reference is written with \<open>rel\<close>.
\<close>

definition rel :: "int \<Rightarrow> int \<Rightarrow> cellref" where
  "rel c r = \<lparr> col = \<lparr> isAbs = False, index = c \<rparr>, row = \<lparr> isAbs = False, index = r \<rparr> \<rparr>"

text \<open>
  C3.  Starting from an empty sheet, \<^verbatim>\<open>eval("a1","b1+1")\<close> succeeds.  Then
  \<^verbatim>\<open>eval("b1","a1+1")\<close> throws \<^verbatim>\<open>CIRCULAR_REF\<close> with a message that names \<^verbatim>\<open>b1\<close>, a
  cell of the cycle; afterwards \<^verbatim>\<open>query("b1")\<close> is \<^verbatim>\<open>{value: 0, formula: ""}\<close> and the
  formula and the value of \<^verbatim>\<open>a1\<close> are what they were (the whole cell table is).  This
  holds for every bound of at least 4 on the depth of the evaluation.
\<close>

theorem circular_ref_rejected_atomically:
  "\<exists>st1 st2.
     eval (4 + fuel) jsArith ''a1'' ''b1+1'' True (newSpreadsheet None) =
       Some (Inr [(''a1'', Exact 1)], st1) \<and>
     eval (4 + fuel) jsArith ''b1'' ''a1+1'' True st1 =
       Some (Inl (AppError CIRCULAR_REF ''circular ref involving b1''), st2) \<and>
     query jsArith ''b1'' st2 = Inr (Exact 0, []) \<and>
     query jsArith ''a1'' st1 = Inr (Exact 1, ''b1+1'') \<and>
     query jsArith ''a1'' st2 = Inr (Exact 1, ''b1+1'') \<and>
     cells st2 = cells st1"
proof -
  let ?a1 = "\<lparr> cid = ''a1'', val = Exact 1,
               ast = Some (App ''+'' [Ref (rel 1 0), Num (Exact 1)]), dependents = [] \<rparr>"
  let ?b1 = "\<lparr> cid = ''b1'', val = Exact 0, ast = None, dependents = [''a1''] \<rparr>"
  let ?st1 = "\<lparr> store = None, storeLog = [], cells = [(''a1'', ?a1), (''b1'', ?b1)],
                undos = [(''a1'', None), (''b1'', None)] \<rparr>"
  let ?st2 = "\<lparr> store = None, storeLog = [], cells = [(''a1'', ?a1), (''b1'', ?b1)],
                undos = [(''b1'', Some ?b1), (''a1'', Some ?a1)] \<rparr>"
  have 1: "eval 4 jsArith ''a1'' ''b1+1'' True (newSpreadsheet None) =
             Some (Inr [(''a1'', Exact 1)], ?st1)"
    by code_simp
  have 2: "eval 4 jsArith ''b1'' ''a1+1'' True ?st1 =
             Some (Inl (AppError CIRCULAR_REF ''circular ref involving b1''), ?st2)"
    by code_simp
  have 3: "query jsArith ''b1'' ?st2 = Inr (Exact 0, [])"
    by code_simp
  have 4: "query jsArith ''a1'' ?st1 = Inr (Exact 1, ''b1+1'')"
    by code_simp
  have 5: "query jsArith ''a1'' ?st2 = Inr (Exact 1, ''b1+1'')"
    by code_simp
  have 6: "cells ?st2 = cells ?st1"
    by simp
  from eval_mono [OF 1, of fuel] eval_mono [OF 2, of fuel] 3 4 5 6 show ?thesis
    by blast
qed

text \<open>
  C5, as the code has it.  After \<^verbatim>\<open>eval("a1","2")\<close> and \<^verbatim>\<open>eval("b1","a1*3")\<close> on an empty
  sheet, \<^verbatim>\<open>delete("a1")\<close> returns the updates map \<^verbatim>\<open>{b1: 0}\<close>: it holds the dependents
  that were evaluated again, not the deleted cell.  Afterwards \<^verbatim>\<open>query("b1")\<close> is
  \<^verbatim>\<open>{value: 0, formula: "a1*3"}\<close>.
\<close>

theorem delete_cascades_to_dependents:
  "\<exists>st1 st2 st3.
     eval (3 + fuel) jsArith ''a1'' ''2'' True (newSpreadsheet None) =
       Some (Inr [(''a1'', Exact 2)], st1) \<and>
     eval (3 + fuel) jsArith ''b1'' ''a1*3'' True st1 = Some (Inr [(''b1'', Exact 6)], st2) \<and>
     delete (3 + fuel) jsArith ''a1'' st2 = Some (Inr [(''b1'', Exact 0)], st3) \<and>
     query jsArith ''b1'' st3 = Inr (Exact 0, ''a1*3'')"
proof -
  let ?f = "Some (App ''*'' [Ref (rel (- 1) 0), Num (Exact 3)])"
  let ?a1 = "\<lparr> cid = ''a1'', val = Exact 2, ast = Some (Num (Exact 2)), dependents = [] \<rparr>"
  let ?b1 = "\<lparr> cid = ''b1'', val = Exact 6, ast = ?f, dependents = [] \<rparr>"
  let ?st1 = "\<lparr> store = None, storeLog = [], cells = [(''a1'', ?a1)],
                undos = [(''a1'', None)] \<rparr>"
  let ?st2 = "\<lparr> store = None, storeLog = [],
                cells = [(''a1'', ?a1 \<lparr> dependents := [''b1''] \<rparr>), (''b1'', ?b1)],
                undos = [(''b1'', None), (''a1'', Some ?a1)] \<rparr>"
  let ?st3 = "\<lparr> store = None, storeLog = [],
                cells = [(''b1'', ?b1 \<lparr> val := Exact 0 \<rparr>),
                         (''a1'', \<lparr> cid = ''a1'', val = Exact 0, ast = None,
                                    dependents = [''b1''] \<rparr>)],
                undos = [(''b1'', Some ?b1), (''a1'', None)] \<rparr>"
  have 1: "eval 3 jsArith ''a1'' ''2'' True (newSpreadsheet None) =
             Some (Inr [(''a1'', Exact 2)], ?st1)"
    by code_simp
  have 2: "eval 3 jsArith ''b1'' ''a1*3'' True ?st1 = Some (Inr [(''b1'', Exact 6)], ?st2)"
    by code_simp
  have 3: "delete 3 jsArith ''a1'' ?st2 = Some (Inr [(''b1'', Exact 0)], ?st3)"
    by code_simp
  have 4: "query jsArith ''b1'' ?st3 = Inr (Exact 0, ''a1*3'')"
    by code_simp
  from eval_mono [OF 1, of fuel] eval_mono [OF 2, of fuel] delete_mono [OF 3, of fuel] 4
  show ?thesis by blast
qed

text \<open>
  C5, as the claim has it, fails: on the same sheet the map returned by \<^verbatim>\<open>delete("a1")\<close>
  has no entry for \<^verbatim>\<open>a1\<close>, so it is not \<^verbatim>\<open>{a1: 0, b1: 0}\<close>.
\<close>

theorem delete_updates_counterexample:
  "\<exists>st1 st2.
     eval 3 jsArith ''a1'' ''2'' True (newSpreadsheet None) = Some (Inr [(''a1'', Exact 2)], st1) \<and>
     eval 3 jsArith ''b1'' ''a1*3'' True st1 = Some (Inr [(''b1'', Exact 6)], st2) \<and>
     map_option fst (delete 3 jsArith ''a1'' st2) = Some (Inr [(''b1'', Exact 0)]) \<and>
     map_option fst (delete 3 jsArith ''a1'' st2) \<noteq>
       Some (Inr [(''a1'', Exact 0), (''b1'', Exact 0)])"
proof -
  let ?f = "Some (App ''*'' [Ref (rel (- 1) 0), Num (Exact 3)])"
  let ?a1 = "\<lparr> cid = ''a1'', val = Exact 2, ast = Some (Num (Exact 2)), dependents = [] \<rparr>"
  let ?b1 = "\<lparr> cid = ''b1'', val = Exact 6, ast = ?f, dependents = [] \<rparr>"
  let ?st1 = "\<lparr> store = None, storeLog = [], cells = [(''a1'', ?a1)],
                undos = [(''a1'', None)] \<rparr>"
  let ?st2 = "\<lparr> store = None, storeLog = [],
                cells = [(''a1'', ?a1 \<lparr> dependents := [''b1''] \<rparr>), (''b1'', ?b1)],
                undos = [(''b1'', None), (''a1'', Some ?a1)] \<rparr>"
  have 1: "eval 3 jsArith ''a1'' ''2'' True (newSpreadsheet None) =
             Some (Inr [(''a1'', Exact 2)], ?st1)"
    by code_simp
  have 2: "eval 3 jsArith ''b1'' ''a1*3'' True ?st1 = Some (Inr [(''b1'', Exact 6)], ?st2)"
    by code_simp
  have 3: "map_option fst (delete 3 jsArith ''a1'' ?st2) = Some (Inr [(''b1'', Exact 0)])"
    by code_simp
  have 4: "map_option fst (delete 3 jsArith ''a1'' ?st2) \<noteq>
             Some (Inr [(''a1'', Exact 0), (''b1'', Exact 0)])"
    unfolding 3 by simp
  from 1 2 3 4 show ?thesis by blast
qed

text \<open>
  C2, at a failing input.  \<^verbatim>\<open>eval("b1","a1")\<close> on an empty sheet makes \<^verbatim>\<open>b1\<close> a dependent
  of \<^verbatim>\<open>a1\<close>.  \<^verbatim>\<open>delete("b1")\<close> succeeds and removes the cell \<^verbatim>\<open>b1\<close>, but \<^verbatim>\<open>b1\<close> stays in
  the dependents of \<^verbatim>\<open>a1\<close>: a stale back-edge.  The next \<^verbatim>\<open>eval("a1","5")\<close> then fails
  with a \<^verbatim>\<open>TypeError\<close>, on the cell that is no longer there.
\<close>

theorem delete_leaves_stale_back_edge:
  "\<exists>st1 st2.
     eval (3 + fuel) jsArith ''b1'' ''a1'' True (newSpreadsheet None) =
       Some (Inr [(''b1'', Exact 0)], st1) \<and>
     delete (3 + fuel) jsArith ''b1'' st1 = Some (Inr [], st2) \<and>
     map_of (cells st2) ''b1'' = None \<and>
     map_option dependents (map_of (cells st2) ''a1'') = Some [''b1''] \<and>
     map_option fst (eval (3 + fuel) jsArith ''a1'' ''5'' True st2) = Some (Inl undefinedCell)"
proof -
  let ?a1 = "\<lparr> cid = ''a1'', val = Exact 0, ast = None, dependents = [''b1''] \<rparr>"
  let ?b1 = "\<lparr> cid = ''b1'', val = Exact 0, ast = Some (Ref (rel (- 1) 0)), dependents = [] \<rparr>"
  let ?st1 = "\<lparr> store = None, storeLog = [], cells = [(''b1'', ?b1), (''a1'', ?a1)],
                undos = [(''b1'', None), (''a1'', None)] \<rparr>"
  let ?st2 = "\<lparr> store = None, storeLog = [], cells = [(''a1'', ?a1)],
                undos = [(''b1'', Some ?b1)] \<rparr>"
  let ?st3 = "\<lparr> store = None, storeLog = [], cells = [(''a1'', ?a1)],
                undos = [(''a1'', Some ?a1)] \<rparr>"
  have 1: "eval 3 jsArith ''b1'' ''a1'' True (newSpreadsheet None) =
             Some (Inr [(''b1'', Exact 0)], ?st1)"
    by code_simp
  have 2: "delete 3 jsArith ''b1'' ?st1 = Some (Inr [], ?st2)"
    by code_simp
  have 3: "map_of (cells ?st2) ''b1'' = None"
    by code_simp
  have 4: "map_option dependents (map_of (cells ?st2) ''a1'') = Some [''b1'']"
    by code_simp
  have 5: "eval 3 jsArith ''a1'' ''5'' True ?st2 = Some (Inl undefinedCell, ?st3)"
    by code_simp
  have 6: "map_option fst (eval (3 + fuel) jsArith ''a1'' ''5'' True ?st2) = Some (Inl undefinedCell)"
    using eval_mono [OF 5, of fuel] by simp
  from eval_mono [OF 1, of fuel] delete_mono [OF 2, of fuel] 3 4 6 show ?thesis
    by blast
qed

text \<open>
  C1, at a failing input.  The sheet has a store whose first call succeeds and whose
  second call throws.  \<^verbatim>\<open>eval("a1","1")\<close> succeeds; \<^verbatim>\<open>delete("a1")\<close> then removes the
  cell, the store throws, and the exception leaves \<^verbatim>\<open>delete\<close> with the cell table empty:
  nothing restores the cell \<^verbatim>\<open>a1\<close>.
\<close>

theorem delete_is_not_rolled_back:
  "\<exists>st1 st2.
     eval (2 + fuel) jsArith ''a1'' ''1'' True
         (newSpreadsheet (Some [None, Some (AppError DB ''cannot delete a1'')])) =
       Some (Inr [(''a1'', Exact 1)], st1) \<and>
     delete fuel jsArith ''a1'' st1 = Some (Inl (AppError DB ''cannot delete a1''), st2) \<and>
     map fst (cells st1) = [''a1''] \<and>
     cells st2 = []"
proof -
  let ?a1 = "\<lparr> cid = ''a1'', val = Exact 1, ast = Some (Num (Exact 1)), dependents = [] \<rparr>"
  let ?st1 = "\<lparr> store = Some [Some (AppError DB ''cannot delete a1'')],
                storeLog = [UpdateCell ''a1'' ''1''], cells = [(''a1'', ?a1)],
                undos = [(''a1'', None)] \<rparr>"
  let ?st2 = "\<lparr> store = Some [], storeLog = [UpdateCell ''a1'' ''1'', DeleteCell ''a1''],
                cells = [], undos = [(''a1'', Some ?a1)] \<rparr>"
  have 1: "eval 2 jsArith ''a1'' ''1'' True
             (newSpreadsheet (Some [None, Some (AppError DB ''cannot delete a1'')])) =
           Some (Inr [(''a1'', Exact 1)], ?st1)"
    by code_simp
  have 2: "delete 0 jsArith ''a1'' ?st1 = Some (Inl (AppError DB ''cannot delete a1''), ?st2)"
    by code_simp
  have 3: "map fst (cells ?st1) = [''a1'']" "cells ?st2 = []"
    by simp_all
  from eval_mono [OF 1, of fuel] delete_mono [OF 2, of fuel] 3 show ?thesis
    by (intro exI [of _ ?st1] exI [of _ ?st2]) simp
qed

section \<open>Decimal numerals\<close>

text \<open>The row part of a cell reference: what the pattern \<^verbatim>\<open>[1-9]\d*\<close> matches, a decimal
  numeral of a positive number.\<close>

definition isRowSpec :: "string \<Rightarrow> bool" where
  "isRowSpec s = (case s of [] \<Rightarrow> False | d # ds \<Rightarrow> isDigit d \<and> d \<noteq> CHR ''0'' \<and> list_all isDigit ds)"

lemma readNat_snoc: "readNat (s @ [c]) = 10 * readNat s + digitVal c"
  by (simp add: readNat_def)

lemma readNat_Nil: "readNat [] = 0"
  by (simp add: readNat_def)

lemma digitVal_digitChar: "d < 10 \<Longrightarrow> digitVal (digitChar d) = d"
  by (simp add: digitVal_def digitChar_def)

lemma digitChar_digitVal: "isDigit c \<Longrightarrow> digitChar (digitVal c) = c"
  by (simp add: digitVal_def digitChar_def isDigit_def)

lemma isDigit_digitChar: "d < 10 \<Longrightarrow> isDigit (digitChar d)"
  by (simp add: digitChar_def isDigit_def)

lemma digitVal_less: "isDigit c \<Longrightarrow> digitVal c < 10"
  by (auto simp: digitVal_def isDigit_def)

lemma digitVal_pos: "isDigit c \<Longrightarrow> c \<noteq> CHR ''0'' \<Longrightarrow> 0 < digitVal c"
proof -
  assume d: "isDigit c" and n: "c \<noteq> CHR ''0''"
  have "(of_char c :: nat) \<noteq> of_char (CHR ''0'')" using n by (simp only: of_char_eq_iff) simp
  then show ?thesis using d by (simp add: digitVal_def isDigit_def)
qed

lemma digitChar_zero: "digitChar d = CHR ''0'' \<Longrightarrow> d < 10 \<Longrightarrow> d = 0"
proof -
  assume a: "digitChar d = CHR ''0''" and b: "d < 10"
  have "digitVal (digitChar d) = d" using b by (rule digitVal_digitChar)
  then show ?thesis using a by (simp add: digitVal_def)
qed

lemma readNat_showNat: "readNat (showNat n) = n"
proof (induction n rule: showNat.induct)
  case (1 n)
  show ?case
  proof (cases "n < 10")
    case True
    then show ?thesis
      by (subst showNat.simps) (simp add: readNat_def digitVal_digitChar)
  next
    case False
    then have "readNat (showNat (n div 10)) = n div 10" using 1 by simp
    then show ?thesis using False
      by (subst showNat.simps) (simp add: readNat_snoc digitVal_digitChar)
  qed
qed

lemma showNat_digits: "list_all isDigit (showNat n)"
proof (induction n rule: showNat.induct)
  case (1 n)
  show ?case
  proof (cases "n < 10")
    case True
    then show ?thesis by (subst showNat.simps) (simp add: isDigit_digitChar)
  next
    case False
    then show ?thesis using 1 by (subst showNat.simps) (simp add: isDigit_digitChar)
  qed
qed

lemma showNat_nonempty: "showNat n \<noteq> []"
  by (subst showNat.simps) simp

lemma hd_showNat: "0 < n \<Longrightarrow> hd (showNat n) \<noteq> CHR ''0''"
proof (induction n rule: showNat.induct)
  case (1 n)
  show ?case
  proof (cases "n < 10")
    case True
    then show ?thesis using 1(2) digitChar_zero [of n]
      by (subst showNat.simps) auto
  next
    case False
    then have "hd (showNat (n div 10)) \<noteq> CHR ''0''" using 1 by simp
    then show ?thesis using False showNat_nonempty [of "n div 10"]
      by (subst showNat.simps) simp
  qed
qed

lemma isRowSpec_showNat: "0 < n \<Longrightarrow> isRowSpec (showNat n)"
  using showNat_digits [of n] showNat_nonempty [of n] hd_showNat [of n]
  by (cases "showNat n") (auto simp: isRowSpec_def)

lemma showNat_readNat_aux:
  "s \<noteq> [] \<Longrightarrow> list_all isDigit s \<Longrightarrow> hd s \<noteq> CHR ''0'' \<Longrightarrow> showNat (readNat s) = s \<and> 0 < readNat s"
proof (induction s rule: rev_induct)
  case Nil
  then show ?case by simp
next
  case (snoc c t)
  have dc: "isDigit c" using snoc.prems by simp
  show ?case
  proof (cases "t = []")
    case True
    have "c \<noteq> CHR ''0''" using snoc.prems True by simp
    then have "0 < digitVal c" using dc by (rule digitVal_pos [rotated])
    moreover have "readNat [c] = digitVal c" by (simp add: readNat_def)
    moreover have "showNat (digitVal c) = [c]"
      using digitVal_less [OF dc] digitChar_digitVal [OF dc] by (subst showNat.simps) simp
    ultimately show ?thesis using True by simp
  next
    case False
    then have "showNat (readNat t) = t \<and> 0 < readNat t" using snoc by simp
    then show ?thesis
      using digitVal_less [OF dc] digitChar_digitVal [OF dc]
      by (subst showNat.simps) (simp add: readNat_snoc)
  qed
qed

lemma isRowSpec_readNat: "isRowSpec s \<Longrightarrow> showNat (readNat s) = s \<and> 0 < readNat s"
  by (cases s) (auto simp: isRowSpec_def intro!: showNat_readNat_aux [THEN conjunct1] showNat_readNat_aux [THEN conjunct2])

lemma digitVal_zero: "digitVal CHR ''0'' = 0"
  by (simp add: digitVal_def)

lemma readNat_zeros: "readNat (replicate k CHR ''0'' @ s) = readNat s"
  by (induction k) (simp_all add: readNat_def digitVal_zero)

lemma showNat_zero: "showNat 0 = ''0''"
  by code_simp

text \<open>A string of decimal digits is a numeral after leading zeros.\<close>

lemma digits_numeral:
  assumes "list_all isDigit s" and "s \<noteq> []"
  shows "\<exists>k n. s = replicate k CHR ''0'' @ showNat n"
proof -
  let ?z = "takeWhile (\<lambda>c. c = CHR ''0'') s"
  let ?r = "dropWhile (\<lambda>c. c = CHR ''0'') s"
  have z: "?z = replicate (length ?z) CHR ''0''"
    by (rule replicate_length_same [symmetric]) (auto dest: set_takeWhileD)
  have s: "s = ?z @ ?r" by simp
  show ?thesis
  proof (cases "?r")
    case Nil
    have "s = ?z" by (metis Nil append_Nil2 takeWhile_dropWhile_id)
    then have "length ?z \<noteq> 0" using assms(2) by (metis length_0_conv)
    then obtain k where k: "length ?z = Suc k" by (cases "length ?z") auto
    have "replicate (Suc k) CHR ''0'' = replicate k CHR ''0'' @ ''0''"
      by (simp add: replicate_append_same)
    then have "s = replicate k CHR ''0'' @ showNat 0"
      using z k \<open>s = ?z\<close> by (simp add: showNat_zero)
    then show ?thesis by blast
  next
    case (Cons d ds)
    have "d \<noteq> CHR ''0''" using Cons hd_dropWhile [of "\<lambda>c. c = CHR ''0''" s] by auto
    moreover have "list_all isDigit ?r"
      using assms(1) set_dropWhileD [of _ "\<lambda>c. c = CHR ''0''" s] by (auto simp: list_all_iff)
    ultimately have "isRowSpec ?r" using Cons by (simp add: isRowSpec_def)
    then have "showNat (readNat ?r) = ?r" using isRowSpec_readNat by blast
    then have "s = replicate (length ?z) CHR ''0'' @ showNat (readNat ?r)" using s z by simp
    then show ?thesis by blast
  qed
qed

text \<open>
  C9, as the code has it.  Every non-empty string of decimal digits is a numeral of
  some \<open>n\<close> after \<open>k\<close> leading zeros.  \<^verbatim>\<open>rowSpecToIndex\<close> returns \<open>n - 1\<close> when that is
  below \<^verbatim>\<open>MAX_N_ROWS\<close> and fails with a \<^verbatim>\<open>LIMITS\<close> error otherwise.  There is no lower
  check and no \<^verbatim>\<open>SYNTAX\<close> error: the result is \<open>- 1\<close> when \<open>n\<close> is 0, and an index from 0
  on when \<open>n\<close> is 1 at least.
\<close>

theorem rowSpecToIndex_value:
  assumes "list_all isDigit spec" and "spec \<noteq> []"
  shows "\<exists>k n. spec = replicate k CHR ''0'' @ showNat n \<and>
           rowSpecToIndex spec =
             (if MAX_N_ROWS \<le> int n - 1
              then Inl (AppError LIMITS (''bad row spec '' @ spec @ ''; cannot be above '' @
                          showInt MAX_N_COLS))
              else Inr (int n - 1))"
proof -
  obtain k n where s: "spec = replicate k CHR ''0'' @ showNat n"
    using digits_numeral [OF assms] by blast
  have "readNat spec = n" by (simp add: s readNat_zeros readNat_showNat)
  then have "rowSpecToIndex spec =
             (if MAX_N_ROWS \<le> int n - 1
              then Inl (AppError LIMITS (''bad row spec '' @ spec @ ''; cannot be above '' @
                          showInt MAX_N_COLS))
              else Inr (int n - 1))"
    by (simp add: rowSpecToIndex_def Let_def)
  then show ?thesis using s by blast
qed

theorem rowSpecToIndex_value_witness:
  "list_all isDigit ''0012'' \<and> ''0012'' \<noteq> [] \<and>
   (\<exists>k n. ''0012'' = replicate k CHR ''0'' @ showNat n \<and>
      rowSpecToIndex ''0012'' =
        (if MAX_N_ROWS \<le> int n - 1
         then Inl (AppError LIMITS (''bad row spec '' @ ''0012'' @ ''; cannot be above '' @
                     showInt MAX_N_COLS))
         else Inr (int n - 1))) \<and>
   rowSpecToIndex ''0012'' = Inr 11 \<and>
   rowSpecToIndex ''10000'' =
     Inl (AppError LIMITS ''bad row spec 10000; cannot be above 26'')"
proof -
  have h1: "list_all isDigit ''0012''"
    by code_simp
  have h2: "''0012'' \<noteq> []"
    by simp
  have v1: "rowSpecToIndex ''0012'' = Inr 11"
    by code_simp
  have v2: "rowSpecToIndex ''10000'' =
      Inl (AppError LIMITS ''bad row spec 10000; cannot be above 26'')"
    by code_simp
  from rowSpecToIndex_value [OF h1 h2] h1 h2 v1 v2 show ?thesis
    by (intro conjI)
qed

text \<open>
  C9, as the claim has it, fails on the numeral of 0: the index is below 0 and
  \<^verbatim>\<open>rowSpecToIndex\<close> returns it.
\<close>

theorem rowSpecToIndex_zero_counterexample:
  "rowSpecToIndex ''0'' = Inr (- 1)"
  by code_simp

section \<open>The parser and its depth bound\<close>

lemma bindP_Some:
  "bindP m f = Some r \<longleftrightarrow>
     (m = Some (Inl (projl r)) \<and> isl r) \<or> (\<exists>a ts. m = Some (Inr (a, ts)) \<and> f a ts = Some r)"
  by (cases m; cases r) (auto simp: bindP_def split: sum.splits)

lemma parser_mono:
  "expr n ts = Some r1 \<Longrightarrow> expr (n + k) ts = Some r1"
  "exprLoop n t0 ts = Some r2 \<Longrightarrow> exprLoop (n + k) t0 ts = Some r2"
  "termP n ts = Some r3 \<Longrightarrow> termP (n + k) ts = Some r3"
  "termLoop n f0 ts = Some r4 \<Longrightarrow> termLoop (n + k) f0 ts = Some r4"
  "factor n ts = Some r5 \<Longrightarrow> factor (n + k) ts = Some r5"
  "argsLoop n args ts = Some r6 \<Longrightarrow> argsLoop (n + k) args ts = Some r6"
proof (induction n ts and n t0 ts and n ts and n f0 ts and n ts and n args ts
    arbitrary: r1 and r2 and r3 and r4 and r5 and r6
    rule: expr_exprLoop_termP_termLoop_factor_argsLoop.induct)
  case (1 ts)
  then show ?case by simp
next
  case (2 n ts)
  then show ?case by (auto simp: bindP_def split: option.splits sum.splits)
next
  case (3 t0 ts)
  then show ?case by simp
next
  case (4 n t0)
  then show ?case by simp
next
  case (5 n t0 t r)
  then show ?case by (auto simp: bindP_def split: option.splits sum.splits if_splits)
next
  case (6 ts)
  then show ?case by simp
next
  case (7 n ts)
  then show ?case by (auto simp: bindP_def split: option.splits sum.splits)
next
  case (8 f0 ts)
  then show ?case by simp
next
  case (9 n f0)
  then show ?case by simp
next
  case (10 n f0 t r)
  then show ?case by (auto simp: bindP_def split: option.splits sum.splits if_splits)
next
  case (11 ts)
  then show ?case by simp
next
  case (12 n)
  then show ?case by simp
next
  case (13 n c r)
  then show ?case by (auto simp: bindP_def split: option.splits sum.splits if_splits)
next
  case (14 n l v r)
  then show ?case by simp
next
  case (15 n fn r)
  then show ?case by (auto simp: bindP_def split: option.splits sum.splits if_splits)
next
  case (16 n l v r)
  then show ?case by simp
next
  case (17 n r)
  then show ?case by simp
next
  case (18 args ts)
  then show ?case by simp
next
  case (19 n args)
  then show ?case by simp
next
  case (20 n args t r)
  then show ?case by (auto simp: bindP_def split: option.splits sum.splits if_splits)
qed


lemma bindP_Inr:
  "bindP m f = Some (Inr x) \<longleftrightarrow> (\<exists>a ts. m = Some (Inr (a, ts)) \<and> f a ts = Some (Inr x))"
  by (cases m) (auto simp: bindP_def split: sum.splits)

lemma map_sum_Pair_Inr [simp]:
  "map_sum id (Pair e) m = Inr (a, ts) \<longleftrightarrow> m = Inr ts \<and> a = e"
  by (cases m) auto

lemma bindP_notNone:
  assumes "m \<noteq> None" and "\<And>a ts. m = Some (Inr (a, ts)) \<Longrightarrow> f a ts \<noteq> None"
  shows "bindP m f \<noteq> None"
  using assms by (auto simp: bindP_def split: option.splits sum.splits)

lemma matchTok_length: "matchTok ty ts = Inr ts' \<Longrightarrow> length ts' \<le> length ts"
  by (cases ts) (auto split: if_splits)

text \<open>A call that returns has not gone back in the tokens, and \<open>factor\<close>, \<open>termP\<close> and
  \<open>expr\<close> have consumed one at least.\<close>

lemma parser_consumes:
  "\<forall>a ts'. expr n ts = Some (Inr (a, ts')) \<longrightarrow> length ts' < length ts"
  "\<forall>a ts'. exprLoop n t0 ts = Some (Inr (a, ts')) \<longrightarrow> length ts' \<le> length ts"
  "\<forall>a ts'. termP n ts = Some (Inr (a, ts')) \<longrightarrow> length ts' < length ts"
  "\<forall>a ts'. termLoop n f0 ts = Some (Inr (a, ts')) \<longrightarrow> length ts' \<le> length ts"
  "\<forall>a ts'. factor n ts = Some (Inr (a, ts')) \<longrightarrow> length ts' < length ts"
  "\<forall>a ts'. argsLoop n args ts = Some (Inr (a, ts')) \<longrightarrow> length ts' \<le> length ts"
proof (induction n ts and n t0 ts and n ts and n f0 ts and n ts and n args ts
    rule: expr_exprLoop_termP_termLoop_factor_argsLoop.induct)
  case (1 ts)
  then show ?case by simp
next
  case (2 n ts)
  show ?case
  proof (intro allI impI)
    fix a ts' assume "expr (Suc n) ts = Some (Inr (a, ts'))"
    then obtain a0 ts0 where "termP n ts = Some (Inr (a0, ts0))"
        and "exprLoop n a0 ts0 = Some (Inr (a, ts'))"
      by (auto simp: bindP_Inr)
    then show "length ts' < length ts" using "2"(1) "2"(2) [of a0 ts0] by force
  qed
next
  case (3 t0 ts)
  then show ?case by simp
next
  case (4 n t0)
  then show ?case by simp
next
  case (5 n t0 t r)
  show ?case
  proof (intro allI impI)
    fix a ts' assume a: "exprLoop (Suc n) t0 (t # r) = Some (Inr (a, ts'))"
    show "length ts' \<le> length (t # r)"
    proof (cases "typeOf t = TChar CHR ''+'' \<or> typeOf t = TChar CHR ''-''")
      case True
      then obtain a1 ts1 where "termP n r = Some (Inr (a1, ts1))"
          and "exprLoop n (App (lexeme t) [t0, a1]) ts1 = Some (Inr (a, ts'))"
        using a by (auto simp: bindP_Inr)
      then show ?thesis using "5"(1) [OF True] "5"(2) [OF True, of a1 ts1] by force
    next
      case False
      then show ?thesis using a by auto
    qed
  qed
next
  case (6 ts)
  then show ?case by simp
next
  case (7 n ts)
  show ?case
  proof (intro allI impI)
    fix a ts' assume "termP (Suc n) ts = Some (Inr (a, ts'))"
    then obtain a0 ts0 where "factor n ts = Some (Inr (a0, ts0))"
        and "termLoop n a0 ts0 = Some (Inr (a, ts'))"
      by (auto simp: bindP_Inr)
    then show "length ts' < length ts" using "7"(1) "7"(2) [of a0 ts0] by force
  qed
next
  case (8 f0 ts)
  then show ?case by simp
next
  case (9 n f0)
  then show ?case by simp
next
  case (10 n f0 t r)
  show ?case
  proof (intro allI impI)
    fix a ts' assume a: "termLoop (Suc n) f0 (t # r) = Some (Inr (a, ts'))"
    show "length ts' \<le> length (t # r)"
    proof (cases "typeOf t = TChar CHR ''*'' \<or> typeOf t = TChar CHR ''/''")
      case True
      then obtain a1 ts1 where "factor n r = Some (Inr (a1, ts1))"
          and "termLoop n (App (lexeme t) [f0, a1]) ts1 = Some (Inr (a, ts'))"
        using a by (auto simp: bindP_Inr)
      then show ?thesis using "10"(1) [OF True] "10"(2) [OF True, of a1 ts1] by force
    next
      case False
      then show ?thesis using a by auto
    qed
  qed
next
  case (11 ts)
  then show ?case by simp
next
  case (12 n)
  then show ?case by simp
next
  case (13 n c r)
  show ?case
  proof (intro allI impI)
    fix a ts' assume a: "factor (Suc n) (CharTok c # r) = Some (Inr (a, ts'))"
    consider "c = CHR ''(''" | "c \<noteq> CHR ''(''" "c = CHR ''-''" | "c \<noteq> CHR ''(''" "c \<noteq> CHR ''-''"
      by blast
    then show "length ts' < length (CharTok c # r)"
    proof cases
      case 1
      then obtain e ts1 where "expr n r = Some (Inr (e, ts1))"
          and "matchTok (TChar CHR '')'') ts1 = Inr ts'"
        using a by (auto simp: bindP_Inr split: sum.splits)
      then show ?thesis using "13"(1) [OF 1] matchTok_length [of _ ts1 ts'] by force
    next
      case 2
      then obtain e where "factor n r = Some (Inr (e, ts'))"
        using a by (auto simp: bindP_Inr)
      then show ?thesis using "13"(2) [OF 2] by force
    next
      case 3
      then show ?thesis using a by simp
    qed
  qed
next
  case (14 n l v r)
  then show ?case by simp
next
  case (15 n fn r)
  show ?case
  proof (intro allI impI)
    fix a ts' assume a: "factor (Suc n) (FnTok fn # r) = Some (Inr (a, ts'))"
    then obtain ts1 where m: "matchTok (TChar CHR ''('') r = Inr ts1"
      by (cases "matchTok (TChar CHR ''('') r") auto
    then obtain a0 ts2 args ts3 where "expr n ts1 = Some (Inr (a0, ts2))"
        and "argsLoop n [a0] ts2 = Some (Inr (args, ts3))"
        and "matchTok (TChar CHR '')'') ts3 = Inr ts'"
      using a by (auto simp: bindP_Inr split: sum.splits)
    then show "length ts' < length (FnTok fn # r)"
      using "15"(1) [OF m] "15"(2) [OF m, of a0 ts2] matchTok_length [OF m]
        matchTok_length [of _ ts3 ts']
      by force
  qed
next
  case (16 n l v r)
  then show ?case by simp
next
  case (17 n r)
  then show ?case by simp
next
  case (18 args ts)
  then show ?case by simp
next
  case (19 n args)
  then show ?case by simp
next
  case (20 n args t r)
  show ?case
  proof (intro allI impI)
    fix a ts' assume a: "argsLoop (Suc n) args (t # r) = Some (Inr (a, ts'))"
    show "length ts' \<le> length (t # r)"
    proof (cases "typeOf t = TChar CHR '',''")
      case True
      then obtain a1 ts1 where "expr n r = Some (Inr (a1, ts1))"
          and "argsLoop n (args @ [a1]) ts1 = Some (Inr (a, ts'))"
        using a by (auto simp: bindP_Inr)
      then show ?thesis using "20"(1) [OF True] "20"(2) [OF True, of a1 ts1] by force
    next
      case False
      then show ?thesis using a by auto
    qed
  qed
qed


lemma expr_consumes: "expr n ts = Some (Inr (a, ts')) \<Longrightarrow> length ts' < length ts"
  using parser_consumes(1) [of n ts] by blast

lemma termP_consumes: "termP n ts = Some (Inr (a, ts')) \<Longrightarrow> length ts' < length ts"
  using parser_consumes(3) [of n ts] by blast

lemma factor_consumes: "factor n ts = Some (Inr (a, ts')) \<Longrightarrow> length ts' < length ts"
  using parser_consumes(5) [of n ts] by blast

text \<open>Hence the bound of \<open>parseDepth\<close> is never reached.\<close>

lemma parser_bound:
  "3 * length ts + 3 \<le> n \<longrightarrow> expr n ts \<noteq> None"
  "3 * length ts + 1 \<le> n \<longrightarrow> exprLoop n t0 ts \<noteq> None"
  "3 * length ts + 2 \<le> n \<longrightarrow> termP n ts \<noteq> None"
  "3 * length ts + 1 \<le> n \<longrightarrow> termLoop n f0 ts \<noteq> None"
  "3 * length ts + 1 \<le> n \<longrightarrow> factor n ts \<noteq> None"
  "3 * length ts + 1 \<le> n \<longrightarrow> argsLoop n args ts \<noteq> None"
proof (induction n ts and n t0 ts and n ts and n f0 ts and n ts and n args ts
    rule: expr_exprLoop_termP_termLoop_factor_argsLoop.induct)
  case (1 ts)
  then show ?case by simp
next
  case (2 n ts)
  show ?case
  proof
    assume b: "3 * length ts + 3 \<le> Suc n"
    have "bindP (termP n ts) (exprLoop n) \<noteq> None"
    proof (rule bindP_notNone)
      show "termP n ts \<noteq> None" using "2"(1) b by simp
    next
      fix a ts' assume "termP n ts = Some (Inr (a, ts'))"
      then have "length ts' < length ts" by (rule termP_consumes)
      then show "exprLoop n a ts' \<noteq> None" using "2"(2) [of ts' a] b by simp
    qed
    then show "expr (Suc n) ts \<noteq> None" by simp
  qed
next
  case (3 t0 ts)
  then show ?case by simp
next
  case (4 n t0)
  then show ?case by simp
next
  case (5 n t0 t r)
  show ?case
  proof
    assume b: "3 * length (t # r) + 1 \<le> Suc n"
    show "exprLoop (Suc n) t0 (t # r) \<noteq> None"
    proof (cases "typeOf t = TChar CHR ''+'' \<or> typeOf t = TChar CHR ''-''")
      case True
      have "bindP (termP n r) (\<lambda>a1 ts1. exprLoop n (App (lexeme t) [t0, a1]) ts1) \<noteq> None"
      proof (rule bindP_notNone)
        show "termP n r \<noteq> None" using "5"(1) [OF True] b by simp
      next
        fix a1 ts1 assume "termP n r = Some (Inr (a1, ts1))"
        then have "length ts1 < length r" by (rule termP_consumes)
        then show "exprLoop n (App (lexeme t) [t0, a1]) ts1 \<noteq> None"
          using "5"(2) [OF True, of ts1 a1] b by simp
      qed
      then show ?thesis using True by simp
    next
      case False
      then show ?thesis by simp
    qed
  qed
next
  case (6 ts)
  then show ?case by simp
next
  case (7 n ts)
  show ?case
  proof
    assume b: "3 * length ts + 2 \<le> Suc n"
    have "bindP (factor n ts) (termLoop n) \<noteq> None"
    proof (rule bindP_notNone)
      show "factor n ts \<noteq> None" using "7"(1) b by simp
    next
      fix a ts' assume "factor n ts = Some (Inr (a, ts'))"
      then have "length ts' < length ts" by (rule factor_consumes)
      then show "termLoop n a ts' \<noteq> None" using "7"(2) [of ts' a] b by simp
    qed
    then show "termP (Suc n) ts \<noteq> None" by simp
  qed
next
  case (8 f0 ts)
  then show ?case by simp
next
  case (9 n f0)
  then show ?case by simp
next
  case (10 n f0 t r)
  show ?case
  proof
    assume b: "3 * length (t # r) + 1 \<le> Suc n"
    show "termLoop (Suc n) f0 (t # r) \<noteq> None"
    proof (cases "typeOf t = TChar CHR ''*'' \<or> typeOf t = TChar CHR ''/''")
      case True
      have "bindP (factor n r) (\<lambda>a1 ts1. termLoop n (App (lexeme t) [f0, a1]) ts1) \<noteq> None"
      proof (rule bindP_notNone)
        show "factor n r \<noteq> None" using "10"(1) [OF True] b by simp
      next
        fix a1 ts1 assume "factor n r = Some (Inr (a1, ts1))"
        then have "length ts1 < length r" by (rule factor_consumes)
        then show "termLoop n (App (lexeme t) [f0, a1]) ts1 \<noteq> None"
          using "10"(2) [OF True, of ts1 a1] b by simp
      qed
      then show ?thesis using True by simp
    next
      case False
      then show ?thesis by simp
    qed
  qed
next
  case (11 ts)
  then show ?case by simp
next
  case (12 n)
  then show ?case by simp
next
  case (13 n c r)
  show ?case
  proof
    assume b: "3 * length (CharTok c # r) + 1 \<le> Suc n"
    consider "c = CHR ''(''" | "c \<noteq> CHR ''(''" "c = CHR ''-''" | "c \<noteq> CHR ''(''" "c \<noteq> CHR ''-''"
      by blast
    then show "factor (Suc n) (CharTok c # r) \<noteq> None"
    proof cases
      case 1
      have "expr n r \<noteq> None" using "13"(1) [OF 1] b by simp
      then show ?thesis using 1 by (simp add: bindP_notNone)
    next
      case 2
      have "factor n r \<noteq> None" using "13"(2) [OF 2] b by simp
      then show ?thesis using 2 by (simp add: bindP_notNone)
    next
      case 3
      then show ?thesis by simp
    qed
  qed
next
  case (14 n l v r)
  then show ?case by simp
next
  case (15 n fn r)
  show ?case
  proof
    assume b: "3 * length (FnTok fn # r) + 1 \<le> Suc n"
    show "factor (Suc n) (FnTok fn # r) \<noteq> None"
    proof (cases "matchTok (TChar CHR ''('') r")
      case (Inl e)
      then show ?thesis by simp
    next
      case (Inr ts1)
      have l1: "length ts1 \<le> length r" using matchTok_length [OF Inr] .
      have "bindP (expr n ts1) (\<lambda>a0 ts2.
            bindP (argsLoop n [a0] ts2) (\<lambda>args ts3.
              Some (map_sum id (Pair (App fn args)) (matchTok (TChar CHR '')'') ts3)))) \<noteq> None"
      proof (rule bindP_notNone)
        show "expr n ts1 \<noteq> None" using "15"(1) [OF Inr] b l1 by simp
      next
        fix a0 ts2 assume "expr n ts1 = Some (Inr (a0, ts2))"
        then have "length ts2 < length ts1" by (rule expr_consumes)
        then have "argsLoop n [a0] ts2 \<noteq> None" using "15"(2) [OF Inr, of ts2 a0] b l1 by simp
        then show "bindP (argsLoop n [a0] ts2) (\<lambda>args ts3.
              Some (map_sum id (Pair (App fn args)) (matchTok (TChar CHR '')'') ts3))) \<noteq> None"
          by (simp add: bindP_notNone)
      qed
      then show ?thesis using Inr by simp
    qed
  qed
next
  case (16 n l v r)
  then show ?case by simp
next
  case (17 n r)
  then show ?case by simp
next
  case (18 args ts)
  then show ?case by simp
next
  case (19 n args)
  then show ?case by simp
next
  case (20 n args t r)
  show ?case
  proof
    assume b: "3 * length (t # r) + 1 \<le> Suc n"
    show "argsLoop (Suc n) args (t # r) \<noteq> None"
    proof (cases "typeOf t = TChar CHR '',''")
      case True
      have "bindP (expr n r) (\<lambda>a1 ts1. argsLoop n (args @ [a1]) ts1) \<noteq> None"
      proof (rule bindP_notNone)
        show "expr n r \<noteq> None" using "20"(1) [OF True] b by simp
      next
        fix a1 ts1 assume "expr n r = Some (Inr (a1, ts1))"
        then have "length ts1 < length r" by (rule expr_consumes)
        then show "argsLoop n (args @ [a1]) ts1 \<noteq> None"
          using "20"(2) [OF True, of ts1 a1] b by simp
      qed
      then show ?thesis using True by simp
    next
      case False
      then show ?thesis by simp
    qed
  qed
qed

lemma parseToks_total: "parseToks toks \<noteq> None"
  using parser_bound(1) [of toks "parseDepth toks"]
  by (auto simp: parseToks_def parseDepth_def split: option.splits sum.splits)

lemma parseExpr_total: "parseExpr A str c \<noteq> None"
  using parseToks_total by (auto simp: parseExpr_def split: sum.splits)

text \<open>A result at any depth is the result of \<open>parseToks\<close>.\<close>

lemma parseToks_any_depth:
  assumes "expr n toks = Some r"
  shows "expr (parseDepth toks) toks = Some r"
proof -
  obtain r' where r': "expr (parseDepth toks) toks = Some r'"
    using parser_bound(1) [of toks "parseDepth toks"] by (auto simp: parseDepth_def)
  show ?thesis
  proof (cases "n \<le> parseDepth toks")
    case True
    then show ?thesis using parser_mono(1) [OF assms, of "parseDepth toks - n"] by simp
  next
    case False
    then have "expr n toks = Some r'"
      using parser_mono(1) [OF r', of "n - parseDepth toks"] by simp
    then show ?thesis using assms r' by simp
  qed
qed

section \<open>Printing a reference and reading it again\<close>

text \<open>
  The coordinate that an axis of a reference denotes in a formula whose cell has the
  coordinate \<open>base\<close> on that axis: the index itself when the axis is absolute, the base
  plus the index when it is relative.  A reference is in range at a base cell when both
  coordinates are within the sheet.  \<open>refText\<close> is the text of a reference at a base
  cell: the column letter and the 1-based row number of these coordinates, each after a
  \<^verbatim>\<open>$\<close> when the axis is absolute.
\<close>

definition axisCoord :: "axis \<Rightarrow> int \<Rightarrow> int" where
  "axisCoord ax base = (if isAbs ax then index ax else base + index ax)"

definition refInRange :: "cellref \<Rightarrow> cellref \<Rightarrow> bool" where
  "refInRange r b =
     (0 \<le> axisCoord (col r) (index (col b)) \<and> axisCoord (col r) (index (col b)) < MAX_N_COLS \<and>
      0 \<le> axisCoord (row r) (index (row b)) \<and> axisCoord (row r) (index (row b)) < MAX_N_ROWS)"

definition refText :: "cellref \<Rightarrow> cellref \<Rightarrow> string" where
  "refText r b =
     (if isAbs (col r) then ''$'' else []) @
     [char_of (nat (97 + axisCoord (col r) (index (col b))))] @
     (if isAbs (row r) then ''$'' else []) @
     showNat (nat (axisCoord (row r) (index (row b)) + 1))"

lemma cellRefToString_inRange:
  assumes "refInRange r b"
  shows "cellRefToString r (Some b) = Inr (refText r b)"
  using assms
  by (cases "isAbs (col r)"; cases "isAbs (row r)")
     (simp_all add: cellRefToString_def refInRange_def refText_def axisCoord_def indexToColSpec_def
      indexToRowSpec_def baseColIndex_def baseRowIndex_def Let_def showInt_def not_le)

lemma cellRefToString_outOfRange:
  assumes "\<not> refInRange r b"
  shows "\<exists>msg. cellRefToString r (Some b) = Inl (AppError SYNTAX msg)"
  using assms
  by (cases "isAbs (col r)"; cases "isAbs (row r)")
     (auto simp: cellRefToString_def refInRange_def axisCoord_def indexToColSpec_def
      indexToRowSpec_def baseColIndex_def baseRowIndex_def Let_def not_le)

text \<open>Facts about single characters.\<close>

lemma of_char_dollar: "of_char CHR ''$'' = (36 :: nat)"
  by code_simp

lemma of_char_underscore: "of_char CHR ''_'' = (95 :: nat)"
  by code_simp

lemma of_char_zero: "of_char CHR ''0'' = (48 :: nat)"
  by code_simp

lemma of_char_dot: "of_char CHR ''.'' = (46 :: nat)"
  by code_simp

lemma isDigit_props:
  assumes "isDigit c"
  shows "isWordOrDollar c" "\<not> isUpper c" "\<not> isSpace c" "c \<noteq> CHR ''$''" "\<not> isLetter c"
    "c \<noteq> CHR ''.''" "lowerChar c = c"
  using assms of_char_dollar of_char_dot
  by (auto simp: isDigit_def isWordOrDollar_def isWord_def isUpper_def isSpace_def isLetter_def
      isLower_def lowerChar_def)

lemma colLetter_props:
  assumes "0 \<le> i" and "i < 26"
  shows "isLetter (char_of (nat (97 + i)))" "\<not> isUpper (char_of (nat (97 + i)))"
    "\<not> isSpace (char_of (nat (97 + i)))" "char_of (nat (97 + i)) \<noteq> CHR ''$''"
    "\<not> isDigit (char_of (nat (97 + i)))" "isWordOrDollar (char_of (nat (97 + i)))"
    "colSpecToIndex (char_of (nat (97 + i))) = i" "lowerChar (char_of (nat (97 + i))) = char_of (nat (97 + i))"
proof -
  have o: "of_char (char_of (nat (97 + i))) = nat (97 + i)"
    using assms by simp
  show "isLetter (char_of (nat (97 + i)))" "\<not> isUpper (char_of (nat (97 + i)))"
    "\<not> isSpace (char_of (nat (97 + i)))" "\<not> isDigit (char_of (nat (97 + i)))"
    "isWordOrDollar (char_of (nat (97 + i)))"
    "colSpecToIndex (char_of (nat (97 + i))) = i"
    using assms o
    by (auto simp: isLetter_def isLower_def isUpper_def isSpace_def isDigit_def isWordOrDollar_def
        isWord_def colSpecToIndex_def)
  then show "lowerChar (char_of (nat (97 + i))) = char_of (nat (97 + i))"
    by (simp add: lowerChar_def)
  show "char_of (nat (97 + i)) \<noteq> CHR ''$''"
  proof
    assume "char_of (nat (97 + i)) = CHR ''$''"
    then have "of_char (char_of (nat (97 + i))) = (36 :: nat)" using of_char_dollar by simp
    then show False using o assms by simp
  qed
qed


lemma trim_id:
  assumes "s \<noteq> []" and "\<not> isSpace (hd s)" and "\<not> isSpace (last s)"
  shows "trim s = s"
proof -
  have 1: "dropWhile isSpace s = s" using assms(1,2) by (cases s) simp_all
  have "rev s \<noteq> []" "\<not> isSpace (hd (rev s))" using assms(1,3) by (simp_all add: hd_rev)
  then have "dropWhile isSpace (rev s) = rev s" by (cases "rev s") simp_all
  then show ?thesis using 1 by (simp add: trim_def)
qed

lemma matchCellRef_parts:
  assumes "isLetter c" and "c \<noteq> CHR ''$''" and "isRowSpec n"
  shows "matchCellRef ((if ac then ''$'' else []) @ [c] @ (if ar then ''$'' else []) @ n) =
           Some (ac, c, ar, n)"
proof -
  obtain d ds where n: "n = d # ds" and d: "isDigit d" "d \<noteq> CHR ''0''" "list_all isDigit ds"
    using assms(3) by (cases n) (auto simp: isRowSpec_def)
  have "d \<noteq> CHR ''$''" using isDigit_props(4) [OF d(1)] .
  then show ?thesis using assms(1,2) n d
    by (cases ac; cases ar) (simp_all add: matchCellRef_def optDollar_def)
qed

text \<open>Reading the text of a reference at the base cell where it was printed gives the
  reference back.\<close>

lemma newCellRef_refText:
  assumes "refInRange r b"
  shows "newCellRef (refText r b) (Some b) = Inr r"
proof -
  define i where "i = axisCoord (col r) (index (col b))"
  define j where "j = axisCoord (row r) (index (row b))"
  define c where "c = char_of (nat (97 + i))"
  define n where "n = showNat (nat (j + 1))"
  have i: "0 \<le> i" "i < 26" and j: "0 \<le> j" "j < MAX_N_ROWS"
    using assms by (simp_all add: refInRange_def MAX_N_COLS_def i_def j_def)
  note c = colLetter_props [OF i, folded c_def]
  have n: "isRowSpec n" unfolding n_def using j by (intro isRowSpec_showNat) simp
  have nd: "list_all isDigit n" unfolding n_def by (rule showNat_digits)
  have nn: "n \<noteq> []" unfolding n_def by (rule showNat_nonempty)
  have t: "refText r b = (if isAbs (col r) then ''$'' else []) @ [c] @
      (if isAbs (row r) then ''$'' else []) @ n"
    by (simp add: refText_def c_def n_def i_def j_def)
  have ne: "refText r b \<noteq> []" by (simp add: t)
  have hd: "\<not> isSpace (hd (refText r b))"
    using c(3) by (simp add: t isSpace_def of_char_dollar)
  have "last (refText r b) = last n" using nn by (simp add: t)
  moreover have "isDigit (last n)" using nd nn by (simp add: list_all_iff)
  ultimately have "\<not> isSpace (last (refText r b))" using isDigit_props(3) by simp
  then have tr: "trim (refText r b) = refText r b" using ne hd by (intro trim_id)
  have lc: "lowerChar CHR ''$'' = CHR ''$''"
    by (simp add: lowerChar_def isUpper_def of_char_dollar)
  have "\<forall>x \<in> set (refText r b). lowerChar x = x"
    using c(8) nd isDigit_props(7) lc
    by (auto simp: t list_all_iff)
  then have lo: "toLowerCase (refText r b) = refText r b"
    by (simp add: toLowerCase_def map_idI)
  have m: "matchCellRef (refText r b) = Some (isAbs (col r), c, isAbs (row r), n)"
    unfolding t using c(1,4) n by (rule matchCellRef_parts)
  have rs: "rowSpecToIndex n = Inr j"
    using j by (simp add: n_def rowSpecToIndex_def readNat_showNat Let_def)
  have ci: "i - (if isAbs (col r) then 0 else index (col b)) = index (col r)"
    by (simp add: i_def axisCoord_def)
  have rj: "j - (if isAbs (row r) then 0 else index (row b)) = index (row r)"
    by (simp add: j_def axisCoord_def)
  have "newCellRef (refText r b) (Some b) =
      Inr \<lparr> col = \<lparr> isAbs = isAbs (col r), index = index (col r) \<rparr>,
            row = \<lparr> isAbs = isAbs (row r), index = index (row r) \<rparr> \<rparr>"
    using ne ci rj
    by (auto simp: newCellRef_def tr lo m rs c(7) Let_def baseColIndex_def baseRowIndex_def
        split: if_splits)
  then show ?thesis by simp
qed

section \<open>Scanning a printed formula\<close>

text \<open>What may follow a number or a name in a printed formula: nothing, or a character
  that is no part of either.\<close>

definition delim :: "string \<Rightarrow> bool" where
  "delim rest = (case rest of [] \<Rightarrow> True | d # _ \<Rightarrow> \<not> isWordOrDollar d \<and> d \<noteq> CHR ''.'')"

lemma takeWhile_stop:
  assumes "rest = [] \<or> \<not> P (hd rest)"
  shows "takeWhile P (xs @ rest) = takeWhile P xs"
  using assms by (induction xs) (auto simp: takeWhile_eq_Nil_iff)

lemma dropWhile_stop:
  assumes "rest = [] \<or> \<not> P (hd rest)"
  shows "dropWhile P (xs @ rest) = dropWhile P xs @ rest"
  using assms by (induction xs) (cases rest; auto)+

lemma exp_letters: "isWordOrDollar CHR ''e''" "isWordOrDollar CHR ''E''"
  by code_simp+

lemma delim_digit: "delim rest \<Longrightarrow> rest = [] \<or> \<not> isDigit (hd rest)"
  using isDigit_props(1) by (cases rest) (auto simp: delim_def)

lemma delim_word: "delim rest \<Longrightarrow> rest = [] \<or> \<not> isWordOrDollar (hd rest)"
  by (cases rest) (auto simp: delim_def)

lemma digits_delim:
  assumes "delim rest"
  shows "takeWhile isDigit (xs @ rest) = takeWhile isDigit xs"
    and "dropWhile isDigit (xs @ rest) = dropWhile isDigit xs @ rest"
  using takeWhile_stop [where P = isDigit, OF delim_digit [OF assms]]
    dropWhile_stop [where P = isDigit, OF delim_digit [OF assms]] by simp_all

lemma word_delim:
  assumes "delim rest"
  shows "takeWhile isWordOrDollar (xs @ rest) = takeWhile isWordOrDollar xs"
    and "dropWhile isWordOrDollar (xs @ rest) = dropWhile isWordOrDollar xs @ rest"
  using takeWhile_stop [where P = isWordOrDollar, OF delim_word [OF assms]]
    dropWhile_stop [where P = isWordOrDollar, OF delim_word [OF assms]] by simp_all

lemma matchExp_delim: "delim rest \<Longrightarrow> matchExp rest = ([], rest)"
  using exp_letters by (cases rest) (auto simp: matchExp_def delim_def)

lemma matchFrac_delim: "delim rest \<Longrightarrow> matchFrac rest = ([], rest)"
  by (cases rest) (auto simp: matchFrac_def delim_def)

lemma matchExp_full:
  assumes "matchExp x = (ex, [])" and "delim rest"
  shows "matchExp (x @ rest) = (ex, rest)"
proof (cases x)
  case Nil
  then show ?thesis using assms matchExp_delim [OF assms(2)] by (simp add: matchExp_def)
next
  case (Cons c r)
  obtain sg r1 where s: "matchSign r = (sg, r1)" by (cases "matchSign r")
  have e: "c = CHR ''e'' \<or> c = CHR ''E''" and d: "takeWhile isDigit r1 \<noteq> []"
    and ex: "ex = c # sg @ takeWhile isDigit r1" and r3: "dropWhile isDigit r1 = []"
    using assms(1) Cons s by (auto simp: matchExp_def split: if_splits)
  have "r1 \<noteq> []" using d by auto
  then have "r \<noteq> []" using s by (auto simp: matchSign_def)
  then have "matchSign (r @ rest) = (sg, r1 @ rest)"
    using s by (cases r) (auto simp: matchSign_def split: if_splits)
  then show ?thesis
    using Cons e d ex r3 by (auto simp: matchExp_def digits_delim [OF assms(2)])
qed

lemma matchFrac_full:
  assumes "matchFrac x = (fr, r2)" and "matchExp r2 = (ex, [])" and "delim rest"
  shows "matchFrac (x @ rest) = (fr, r2 @ rest)"
proof (cases x)
  case Nil
  then show ?thesis using assms(1) matchFrac_delim [OF assms(3)] by (simp add: matchFrac_def)
next
  case (Cons c r)
  show ?thesis
  proof (cases "c = CHR ''.''")
    case False
    then show ?thesis using Cons assms(1) by (auto simp: matchFrac_def)
  next
    case True
    have "takeWhile isDigit r \<noteq> []"
    proof
      assume "takeWhile isDigit r = []"
      then have "r2 = CHR ''.'' # r" using assms(1) Cons True by (simp add: matchFrac_def)
      then show False using assms(2) by (simp add: matchExp_def)
    qed
    then show ?thesis
      using Cons True assms(1) by (auto simp: matchFrac_def digits_delim [OF assms(3)])
  qed
qed

lemma matchNum_full:
  assumes "matchNum s = (s', [])" and "delim rest"
  shows "matchNum (s @ rest) = (s', rest)"
proof -
  obtain fr r2 where f: "matchFrac (dropWhile isDigit s) = (fr, r2)"
    by (cases "matchFrac (dropWhile isDigit s)")
  obtain ex r3 where e: "matchExp r2 = (ex, r3)" by (cases "matchExp r2")
  have r3: "r3 = []" and s': "s' = takeWhile isDigit s @ fr @ ex"
    using assms(1) f e by (simp_all add: matchNum_def)
  have 1: "matchFrac (dropWhile isDigit s @ rest) = (fr, r2 @ rest)"
    using f e r3 assms(2) by (intro matchFrac_full) simp_all
  have 2: "matchExp (r2 @ rest) = (ex, rest)"
    using e r3 assms(2) by (intro matchExp_full) simp_all
  show ?thesis
    using 1 2 s' by (simp add: matchNum_def digits_delim [OF assms(2)])
qed


text \<open>One step of the scanner, for each kind of token of a printed formula.\<close>

lemma scan_step:
  assumes "\<not> isSpace c"
  shows "scan A (c # cs) b =
     (case fst (scanTok A c cs b) of
        Inl e \<Rightarrow> Inl e
      | Inr tok \<Rightarrow> map_sum id (Cons tok) (scan A (snd (scanTok A c cs b)) b))"
  using assms by (subst scan.simps) (simp add: trimStart_def)

lemma scan_space:
  assumes "isSpace c"
  shows "scan A (c # cs) b = scan A cs b"
  using assms
  by (subst scan.simps [of _ "c # cs"], subst scan.simps [of _ cs]) (simp add: trimStart_def)

lemma scan_char:
  assumes "\<not> isSpace c" and "\<not> isDigit c" and "\<not> isWordOrDollar c"
  shows "scan A (c # rest) b = map_sum id (Cons (CharTok c)) (scan A rest b)"
  using assms by (simp add: scan_step scanTok_def)

lemma scan_num:
  assumes "isDigit c" and "matchNum (c # cs) = (c # cs, [])" and "delim rest"
  shows "scan A ((c # cs) @ rest) b =
           map_sum id (Cons (NumTok (c # cs) (numOfLexeme A (c # cs)))) (scan A rest b)"
proof -
  have "matchNum (c # cs @ rest) = (c # cs, rest)"
    using matchNum_full [OF assms(2,3)] by simp
  then show ?thesis
    using assms(1) isDigit_props(3) [OF assms(1)] by (simp add: scan_step scanTok_def)
qed

lemma scan_word:
  assumes "list_all isWordOrDollar (c # cs)" and "\<not> isSpace c" and "\<not> isDigit c"
    and "delim rest"
  shows "scan A ((c # cs) @ rest) b =
     (if FNS (c # cs) \<noteq> None then map_sum id (Cons (FnTok (c # cs))) (scan A rest b)
      else case newCellRef (c # cs) (Some b) of
             Inl e \<Rightarrow> Inl e
           | Inr r \<Rightarrow> map_sum id (Cons (RefTok (c # cs) r)) (scan A rest b))"
proof -
  have a: "takeWhile isWordOrDollar (c # cs) = c # cs" "dropWhile isWordOrDollar (c # cs) = []"
    using assms(1) by (simp_all add: list_all_iff)
  have tw: "takeWhile isWordOrDollar (c # cs @ rest) = c # cs"
    using word_delim(1) [OF assms(4), of "c # cs"] a(1) by (simp del: takeWhile.simps)
  have dw: "dropWhile isWordOrDollar (c # cs @ rest) = rest"
    using word_delim(2) [OF assms(4), of "c # cs"] a(2) by (simp del: dropWhile.simps)
  have iw: "isWordOrDollar c" using assms(1) by simp
  have k: "scanTok A c (cs @ rest) b =
     (if FNS (c # cs) \<noteq> None then (Inr (FnTok (c # cs)), rest)
      else (map_sum id (RefTok (c # cs)) (newCellRef (c # cs) (Some b)), rest))"
    using assms(3) iw
    by (simp add: scanTok_def Let_def tw dw del: takeWhile.simps dropWhile.simps)
  show ?thesis
    using assms(2) by (cases "newCellRef (c # cs) (Some b)") (simp_all add: scan_step k)
qed

lemma FNS_names:
  "FNS s \<noteq> None \<Longrightarrow> s \<in> set ([''+'', ''-'', ''*'', ''/'', ''max'', ''min''] @ objectProtoNames)"
  by (auto simp: FNS_def split: if_splits)

lemma FNS_last:
  assumes "FNS s \<noteq> None"
  shows "\<not> isDigit (last s)"
proof -
  have "list_all (\<lambda>f. \<not> isDigit (last f))
          ([''+'', ''-'', ''*'', ''/'', ''max'', ''min''] @ objectProtoNames)"
    by code_simp
  then show ?thesis using FNS_names [OF assms] unfolding list_all_iff by blast
qed

lemma scan_ref:
  assumes "refInRange r b" and "delim rest"
  shows "scan A (refText r b @ rest) b = map_sum id (Cons (RefTok (refText r b) r)) (scan A rest b)"
proof -
  define i where "i = axisCoord (col r) (index (col b))"
  define n where "n = showNat (nat (axisCoord (row r) (index (row b)) + 1))"
  have i: "0 \<le> i" "i < 26"
    using assms(1) by (simp_all add: refInRange_def MAX_N_COLS_def i_def)
  note c = colLetter_props [OF i]
  have nd: "list_all isDigit n" unfolding n_def by (rule showNat_digits)
  have nn: "n \<noteq> []" unfolding n_def by (rule showNat_nonempty)
  have t: "refText r b = (if isAbs (col r) then ''$'' else []) @ [char_of (nat (97 + i))] @
      (if isAbs (row r) then ''$'' else []) @ n"
    by (simp add: refText_def n_def i_def)
  obtain c0 cs0 where s: "refText r b = c0 # cs0" by (cases "refText r b") (simp_all add: t)
  have w: "list_all isWordOrDollar (refText r b)"
    using c(6) nd isDigit_props(1) by (auto simp: t list_all_iff isWordOrDollar_def)
  have c0: "c0 = CHR ''$'' \<or> c0 = char_of (nat (97 + i))"
    using s by (auto simp: t split: if_splits)
  then have sp: "\<not> isSpace c0" and dg: "\<not> isDigit c0"
    using c(3,5) by (auto simp: isSpace_def isDigit_def of_char_dollar)
  have "last (refText r b) = last n" using nn by (simp add: t)
  moreover have "isDigit (last n)" using nd nn by (simp add: list_all_iff)
  ultimately have ld: "isDigit (last (refText r b))" by simp
  have f: "FNS (refText r b) = None"
  proof (rule ccontr)
    assume "FNS (refText r b) \<noteq> None"
    from FNS_last [OF this] ld show False by simp
  qed
  show ?thesis
    using scan_word [OF w [unfolded s] sp dg assms(2), of A b] f newCellRef_refText [OF assms(1)]
    by (simp add: s)
qed

lemma scan_fn:
  assumes "fn = ''max'' \<or> fn = ''min''" and "delim rest"
  shows "scan A (fn @ rest) b = map_sum id (Cons (FnTok fn)) (scan A rest b)"
proof -
  have m: "list_all isWordOrDollar ''max''" "\<not> isSpace CHR ''m''" "\<not> isDigit CHR ''m''"
    "list_all isWordOrDollar ''min''"
    by code_simp+
  have f: "FNS ''max'' \<noteq> None" "FNS ''min'' \<noteq> None" by (simp_all add: FNS_def)
  show ?thesis
    using assms(1) scan_word [OF m(1) m(2) m(3) assms(2), of A b]
      scan_word [OF m(4) m(2) m(3) assms(2), of A b] f
    by auto
qed

lemma scan_Nil: "scan A [] b = Inr [EndTok]"
  by (subst scan.simps) (simp add: trimStart_def)

section \<open>Well-formed syntax trees and their tokens\<close>

text \<open>
  A tree is well formed when every application has the arity of its function: two
  arguments for \<^verbatim>\<open>+\<close>, \<^verbatim>\<open>*\<close> and \<^verbatim>\<open>/\<close>, one or two for \<^verbatim>\<open>-\<close>, one at least for \<^verbatim>\<open>max\<close>
  and \<^verbatim>\<open>min\<close>.  A number is a literal value when it prints as a numeric literal of the
  scanner, which reads as the number again.
\<close>

fun arityOK :: "'n ast \<Rightarrow> bool" where
  "arityOK (Num v) = True"
| "arityOK (Ref r) = True"
| "arityOK (App fn kids) =
     ((if fn = ''+'' \<or> fn = ''*'' \<or> fn = ''/'' then length kids = 2
       else if fn = ''-'' then length kids = 1 \<or> length kids = 2
       else (fn = ''max'' \<or> fn = ''min'') \<and> kids \<noteq> []) \<and>
      list_all arityOK kids)"

definition numLiteral :: "'n arith \<Rightarrow> 'n \<Rightarrow> bool" where
  "numLiteral A v =
     (case numToString A v of
        [] \<Rightarrow> False
      | c # cs \<Rightarrow> isDigit c \<and> matchNum (c # cs) = (c # cs, []) \<and> numOfLexeme A (c # cs) = v)"

fun numsOK :: "'n arith \<Rightarrow> 'n ast \<Rightarrow> bool" where
  "numsOK A (Num v) = numLiteral A v"
| "numsOK A (Ref r) = True"
| "numsOK A (App fn kids) = list_all (numsOK A) kids"

fun refsOf :: "'n ast \<Rightarrow> cellref list" where
  "refsOf (Num v) = []"
| "refsOf (Ref r) = [r]"
| "refsOf (App fn kids) = concat (map refsOf kids)"

text \<open>The tokens of a printed tree, with the parentheses that the printer puts.\<close>

definition parenToks :: "bool \<Rightarrow> 'n token list \<Rightarrow> 'n token list" where
  "parenToks p ts = (if p then CharTok CHR ''('' # ts @ [CharTok CHR '')''] else ts)"

fun argToks :: "'n token list list \<Rightarrow> 'n token list" where
  "argToks [] = []"
| "argToks [t] = t"
| "argToks (t # u # ts) = t @ CharTok CHR '','' # argToks (u # ts)"

fun astToks :: "'n arith \<Rightarrow> cellref \<Rightarrow> 'n ast \<Rightarrow> 'n token list" where
  "astToks A b (Num v) = [NumTok (numToString A v) v]"
| "astToks A b (Ref r) = [RefTok (refText r b) r]"
| "astToks A b (App fn kids) =
     (case FNS fn of
        None \<Rightarrow> []
      | Some fnInfo \<Rightarrow>
          if \<not> isLeft fnInfo then
            FnTok fn # CharTok CHR ''('' # argToks (map (astToks A b) kids) @ [CharTok CHR '')'']
          else
            (case kids of
               [] \<Rightarrow> []
             | [k] \<Rightarrow>
                 CharTok (hd fn) #
                   parenToks (case kidPrec k of None \<Rightarrow> False | Some p \<Rightarrow> p \<noteq> 0) (astToks A b k)
             | k0 # k1 # ks \<Rightarrow>
                 parenToks ((case kidPrec k0 of None \<Rightarrow> MAX_PREC | Some p \<Rightarrow> p) < the (prec fnInfo))
                   (astToks A b k0) @
                 CharTok (hd fn) #
                 parenToks ((case kidPrec k1 of None \<Rightarrow> MAX_PREC | Some p \<Rightarrow> p) \<le> the (prec fnInfo))
                   (astToks A b k1)))"

definition pre :: "'a list \<Rightarrow> 'e + 'a list \<Rightarrow> 'e + 'a list" where
  "pre ts m = map_sum id ((@) ts) m"

lemma pre_pre: "pre xs (pre ys m) = pre (xs @ ys) m"
  by (cases m) (simp_all add: pre_def)

lemma pre_Nil: "pre [] m = m"
  by (cases m) (simp_all add: pre_def)

lemma Cons_pre: "map_sum id (Cons t) m = pre [t] m"
  by (cases m) (simp_all add: pre_def)

lemma opChars:
  assumes "c \<in> set ''()+-*/,''"
  shows "\<not> isSpace c" "\<not> isDigit c" "\<not> isWordOrDollar c" "c \<noteq> CHR ''.''"
proof -
  have "list_all (\<lambda>c. \<not> isSpace c \<and> \<not> isDigit c \<and> \<not> isWordOrDollar c \<and> c \<noteq> CHR ''.'') ''()+-*/,''"
    by code_simp
  then show "\<not> isSpace c" "\<not> isDigit c" "\<not> isWordOrDollar c" "c \<noteq> CHR ''.''"
    using assms unfolding list_all_iff by blast+
qed

lemma scan_op:
  assumes "c \<in> set ''()+-*/,''"
  shows "scan A (c # rest) b = pre [CharTok c] (scan A rest b)"
  using opChars [OF assms] by (simp add: scan_char Cons_pre)

lemma delim_op: "c \<in> set ''()+-*/,'' \<Longrightarrow> delim (c # rest)"
  using opChars [of c] by (simp add: delim_def)

lemma delim_Nil: "delim []"
  by (simp add: delim_def)

lemma space_char: "isSpace CHR '' ''"
  by code_simp

text \<open>A block: a printed kid, in parentheses or not.\<close>

lemma scan_block:
  assumes "\<And>rest. delim rest \<Longrightarrow> scan A (s @ rest) b = pre ts (scan A rest b)"
    and "delim rest"
  shows "scan A (left p @ s @ right p @ rest) b = pre (parenToks p ts) (scan A rest b)"
proof (cases p)
  case False
  then show ?thesis using assms by (simp add: left_def right_def parenToks_def)
next
  case True
  have "scan A (s @ CHR '')'' # rest) b = pre ts (scan A (CHR '')'' # rest) b)"
    by (rule assms(1)) (simp add: delim_op)
  then show ?thesis
    using True by (simp add: left_def right_def parenToks_def scan_op pre_pre)
qed


lemma FNS_binary:
  assumes "op \<in> set ''+-*/''"
  shows "\<exists>p. FNS [op] = Some \<lparr> prec = Some p, isLeft = True \<rparr> \<and> (p = 10 \<or> p = 20) \<and>
           (p = 10 \<longleftrightarrow> op = CHR ''+'' \<or> op = CHR ''-'')"
  using assms by (auto simp: FNS_def)

lemma FNS_named:
  assumes "fn = ''max'' \<or> fn = ''min''"
  shows "FNS fn = Some \<lparr> prec = None, isLeft = False \<rparr>"
  using assms by (auto simp: FNS_def)

lemma arityOK_cases:
  assumes "arityOK (App fn kids)"
  obtains (binary) op k0 k1 where "fn = [op]" "op \<in> set ''+-*/''" "kids = [k0, k1]"
  | (negation) k where "fn = ''-''" "kids = [k]"
  | (named) "fn = ''max'' \<or> fn = ''min''" "kids \<noteq> []"
proof -
  consider "fn = ''+'' \<or> fn = ''*'' \<or> fn = ''/''" "length kids = 2"
    | "fn = ''-''" "length kids = 2" | "fn = ''-''" "length kids = 1"
    | "fn = ''max'' \<or> fn = ''min''" "kids \<noteq> []"
    using assms by (auto split: if_splits)
  then show thesis
  proof cases
    case 1
    then obtain k0 k1 where "kids = [k0, k1]"
      by (cases kids; cases "tl kids") auto
    then show ?thesis using 1 binary [of "hd fn" k0 k1] by auto
  next
    case 2
    then obtain k0 k1 where "kids = [k0, k1]"
      by (cases kids; cases "tl kids") auto
    then show ?thesis using 2 binary [of "CHR ''-''" k0 k1] by auto
  next
    case 3
    then obtain k where "kids = [k]" by (cases kids) auto
    then show ?thesis using 3 negation by auto
  next
    case 4
    then show ?thesis using named by auto
  qed
qed

lemma astToStr_Ref:
  assumes "astToStr A (Ref r) b = Inr s"
  shows "refInRange r b \<and> s = refText r b"
proof (cases "refInRange r b")
  case True
  then show ?thesis using assms cellRefToString_inRange [OF True] by simp
next
  case False
  then show ?thesis using assms cellRefToString_outOfRange [OF False] by auto
qed

lemma map_sum_Cons_Inr:
  "map_sum id (Cons x) m = Inr ys \<longleftrightarrow> (\<exists>xs. m = Inr xs \<and> ys = x # xs)"
  by (cases m) auto

text \<open>The scanner reads a printed tree as its tokens.\<close>

lemma scan_kids:
  assumes "\<And>k s rest. k \<in> set ks \<Longrightarrow> astToStr A k b = Inr s \<Longrightarrow> delim rest \<Longrightarrow>
             scan A (s @ rest) b = pre (astToks A b k) (scan A rest b)"
  shows "kidsToStr A ks b = Inr ss \<Longrightarrow> delim rest \<Longrightarrow>
         scan A (joinStr '', '' ss @ rest) b =
           pre (argToks (map (astToks A b) ks)) (scan A rest b)"
  using assms
proof (induction ks arbitrary: ss)
  case Nil
  then show ?case by (simp add: pre_Nil)
next
  case (Cons k ks)
  obtain s ss' where s: "astToStr A k b = Inr s" and ss': "kidsToStr A ks b = Inr ss'"
      and ss: "ss = s # ss'"
    using Cons.prems(1) by (auto simp: map_sum_Cons_Inr split: sum.splits)
  show ?case
  proof (cases ks)
    case Nil
    then have "ss' = []" using ss' by simp
    then show ?thesis using Nil ss Cons.prems(3) [OF _ s Cons.prems(2)] by simp
  next
    case (Cons k' ks')
    then obtain s' ss'' where "ss' = s' # ss''"
      using ss' by (auto simp: map_sum_Cons_Inr split: sum.splits)
    then have j: "joinStr '', '' ss = s @ '', '' @ joinStr '', '' ss'" using ss by simp
    have 1: "scan A (joinStr '', '' ss' @ rest) b =
        pre (argToks (map (astToks A b) ks)) (scan A rest b)"
      using Cons.IH [OF ss' Cons.prems(2)] Cons.prems(3) by simp
    have "scan A (s @ ('', '' @ joinStr '', '' ss' @ rest)) b =
        pre (astToks A b k) (scan A ('', '' @ joinStr '', '' ss' @ rest) b)"
      by (rule Cons.prems(3) [OF _ s]) (simp_all add: delim_op)
    then show ?thesis
      using 1 Cons by (simp add: j scan_op scan_space space_char pre_pre)
  qed
qed

lemma astToStr_scan:
  "arityOK a \<Longrightarrow> numsOK A a \<Longrightarrow> astToStr A a b = Inr s \<Longrightarrow> delim rest \<Longrightarrow>
   scan A (s @ rest) b = pre (astToks A b a) (scan A rest b)"
proof (induction a arbitrary: s rest)
  case (Num v)
  obtain c cs where n: "numToString A v = c # cs" "isDigit c" "matchNum (c # cs) = (c # cs, [])"
      "numOfLexeme A (c # cs) = v"
    using Num.prems(2) by (auto simp: numLiteral_def split: list.splits)
  have "s = c # cs" using Num.prems(3) n(1) by simp
  then show ?case
    using scan_num [OF n(2,3) Num.prems(4), of A b] n(1,4) by (simp add: Cons_pre)
next
  case (Ref r)
  have "refInRange r b" "s = refText r b" using astToStr_Ref [OF Ref.prems(3)] by simp_all
  then show ?case using scan_ref [OF _ Ref.prems(4), of r b A] by (simp add: Cons_pre)
next
  case (App fn kids)
  have ok: "k \<in> set kids \<Longrightarrow> arityOK k \<and> numsOK A k" for k
    using App.prems(1,2) by (auto simp: list_all_iff)
  have IH: "scan A (s @ rest) b = pre (astToks A b k) (scan A rest b)"
    if "k \<in> set kids" "astToStr A k b = Inr s" "delim rest" for k s rest
    using App.IH [OF that(1) _ _ that(2,3)] ok [OF that(1)] by simp
  from App.prems(1) show ?case
  proof (cases rule: arityOK_cases)
    case (binary op k0 k1)
    obtain p where f: "FNS fn = Some \<lparr> prec = Some p, isLeft = True \<rparr>"
      using FNS_binary [OF binary(2)] binary(1) by auto
    define p0 where "p0 = ((case kidPrec k0 of None \<Rightarrow> MAX_PREC | Some q \<Rightarrow> q) < p)"
    define p1 where "p1 = ((case kidPrec k1 of None \<Rightarrow> MAX_PREC | Some q \<Rightarrow> q) \<le> p)"
    obtain s0 s1 where s0: "astToStr A k0 b = Inr s0" and s1: "astToStr A k1 b = Inr s1"
        and s: "s = left p0 @ s0 @ right p0 @ fn @ left p1 @ s1 @ right p1"
      using App.prems(3) f binary(3)
      by (auto simp: Let_def p0_def p1_def split: sum.splits)
    have op: "op \<in> set ''()+-*/,''" using binary(2) by auto
    have 1: "scan A (left p1 @ s1 @ right p1 @ rest) b =
        pre (parenToks p1 (astToks A b k1)) (scan A rest b)"
      by (rule scan_block [OF IH [OF _ s1] App.prems(4)]) (simp add: binary(3))
    have 0: "scan A (left p0 @ s0 @ right p0 @ (op # left p1 @ s1 @ right p1 @ rest)) b =
        pre (parenToks p0 (astToks A b k0)) (scan A (op # left p1 @ s1 @ right p1 @ rest) b)"
      by (rule scan_block [OF IH [OF _ s0] delim_op [OF op]]) (simp add: binary(3))
    have "astToks A b (App fn kids) =
        parenToks p0 (astToks A b k0) @ CharTok op # parenToks p1 (astToks A b k1)"
      using f binary(1,3) by (simp add: p0_def p1_def)
    then show ?thesis
      using 0 1 by (simp add: s binary(1) scan_op [OF op] pre_pre)
  next
    case (negation k)
    have f: "FNS fn = Some \<lparr> prec = Some 10, isLeft = True \<rparr>"
      using negation(1) by (simp add: FNS_def)
    define q where "q = (case kidPrec k of None \<Rightarrow> False | Some p \<Rightarrow> p \<noteq> 0)"
    obtain sk where sk: "astToStr A k b = Inr sk" and s: "s = fn @ left q @ sk @ right q"
      using App.prems(3) f negation(2) by (auto simp: Let_def q_def split: sum.splits)
    have op: "CHR ''-'' \<in> set ''()+-*/,''" by simp
    have 1: "scan A (left q @ sk @ right q @ rest) b =
        pre (parenToks q (astToks A b k)) (scan A rest b)"
      by (rule scan_block [OF IH [OF _ sk] App.prems(4)]) (simp add: negation(2))
    have "astToks A b (App fn kids) = CharTok CHR ''-'' # parenToks q (astToks A b k)"
      using f negation by (simp add: q_def)
    then show ?thesis
      using 1 by (simp add: s negation(1) scan_op [OF op] pre_pre)
  next
    case named
    have f: "FNS fn = Some \<lparr> prec = None, isLeft = False \<rparr>"
      using FNS_named [OF named(1)] .
    obtain ss where ss: "kidsToStr A kids b = Inr ss"
        and s: "s = fn @ ''('' @ joinStr '', '' ss @ '')''"
      using App.prems(3) f by (auto split: sum.splits)
    have l: "CHR ''('' \<in> set ''()+-*/,''" and r: "CHR '')'' \<in> set ''()+-*/,''" by simp_all
    have 1: "scan A (joinStr '', '' ss @ (CHR '')'' # rest)) b =
        pre (argToks (map (astToks A b) kids)) (scan A (CHR '')'' # rest) b)"
      using IH by (intro scan_kids [OF _ ss delim_op [OF r]]) simp
    have 2: "scan A (fn @ (CHR ''('' # joinStr '', '' ss @ CHR '')'' # rest)) b =
        pre [FnTok fn] (scan A (CHR ''('' # joinStr '', '' ss @ CHR '')'' # rest) b)"
      using scan_fn [OF named(1) delim_op [OF l]] by (simp add: Cons_pre)
    have "astToks A b (App fn kids) =
        FnTok fn # CharTok CHR ''('' # argToks (map (astToks A b) kids) @ [CharTok CHR '')'']"
      using f by simp
    then show ?thesis
      using 1 2 by (simp add: s scan_op [OF l] scan_op [OF r] pre_pre)
  qed
qed

section \<open>Parsing the tokens of a printed tree\<close>

lemma expr_fuel: "expr n ts = Some r \<Longrightarrow> n \<le> m \<Longrightarrow> expr m ts = Some r"
  using parser_mono(1) [of n ts r "m - n"] by simp

lemma exprLoop_fuel: "exprLoop n a ts = Some r \<Longrightarrow> n \<le> m \<Longrightarrow> exprLoop m a ts = Some r"
  using parser_mono(2) [of n a ts r "m - n"] by simp

lemma termP_fuel: "termP n ts = Some r \<Longrightarrow> n \<le> m \<Longrightarrow> termP m ts = Some r"
  using parser_mono(3) [of n ts r "m - n"] by simp

lemma termLoop_fuel: "termLoop n a ts = Some r \<Longrightarrow> n \<le> m \<Longrightarrow> termLoop m a ts = Some r"
  using parser_mono(4) [of n a ts r "m - n"] by simp

lemma factor_fuel: "factor n ts = Some r \<Longrightarrow> n \<le> m \<Longrightarrow> factor m ts = Some r"
  using parser_mono(5) [of n ts r "m - n"] by simp

lemma argsLoop_fuel: "argsLoop n as ts = Some r \<Longrightarrow> n \<le> m \<Longrightarrow> argsLoop m as ts = Some r"
  using parser_mono(6) [of n as ts r "m - n"] by simp

text \<open>The binary applications of \<^verbatim>\<open>+\<close> and \<^verbatim>\<open>-\<close>, which \<open>exprLoop\<close> builds, and those of
  \<^verbatim>\<open>*\<close> and \<^verbatim>\<open>/\<close>, which \<open>termLoop\<close> builds; every other tree is built by \<open>factor\<close>.\<close>

fun addLevel :: "'n ast \<Rightarrow> bool" where
  "addLevel (App fn [k0, k1]) = (fn = ''+'' \<or> fn = ''-'')"
| "addLevel a = False"

fun mulLevel :: "'n ast \<Rightarrow> bool" where
  "mulLevel (App fn [k0, k1]) = (fn = ''*'' \<or> fn = ''/'')"
| "mulLevel a = False"

definition precOf :: "'n ast \<Rightarrow> nat" where
  "precOf k = (case kidPrec k of None \<Rightarrow> MAX_PREC | Some p \<Rightarrow> p)"

definition isOp :: "'n ast \<Rightarrow> bool" where
  "isOp k = (case kidPrec k of None \<Rightarrow> False | Some p \<Rightarrow> p \<noteq> 0)"

lemma addLevel_prec: "addLevel a \<Longrightarrow> precOf a = 10 \<and> isOp a"
  by (cases a rule: addLevel.cases) (auto simp: precOf_def isOp_def FNS_def)

lemma mulLevel_prec: "mulLevel a \<Longrightarrow> precOf a = 20 \<and> isOp a"
  by (cases a rule: mulLevel.cases) (auto simp: precOf_def isOp_def FNS_def)

text \<open>What may follow a term, and what may follow an expression.\<close>

definition endsTerm :: "'n token list \<Rightarrow> bool" where
  "endsTerm rest =
     (case rest of [] \<Rightarrow> False | t # _ \<Rightarrow> typeOf t \<noteq> TChar CHR ''*'' \<and> typeOf t \<noteq> TChar CHR ''/'')"

definition endsExpr :: "'n token list \<Rightarrow> bool" where
  "endsExpr rest =
     (case rest of
        [] \<Rightarrow> False
      | t # _ \<Rightarrow> typeOf t \<noteq> TChar CHR ''*'' \<and> typeOf t \<noteq> TChar CHR ''/'' \<and>
                 typeOf t \<noteq> TChar CHR ''+'' \<and> typeOf t \<noteq> TChar CHR ''-'')"

lemma termLoop_ends: "endsTerm rest \<Longrightarrow> termLoop (Suc n) a rest = Some (Inr (a, rest))"
  by (cases rest) (auto simp: endsTerm_def)

lemma exprLoop_ends: "endsExpr rest \<Longrightarrow> exprLoop (Suc n) a rest = Some (Inr (a, rest))"
  by (cases rest) (auto simp: endsExpr_def)

lemma endsExpr_endsTerm: "endsExpr rest \<Longrightarrow> endsTerm rest"
  by (cases rest) (auto simp: endsExpr_def endsTerm_def)

definition parses :: "'n arith \<Rightarrow> cellref \<Rightarrow> 'n ast \<Rightarrow> bool" where
  "parses A b a =
     ((\<forall>rest m r. endsTerm rest \<longrightarrow> exprLoop m a rest = Some r \<longrightarrow>
          (\<exists>n. expr n (astToks A b a @ rest) = Some r)) \<and>
      (\<not> addLevel a \<longrightarrow>
         (\<forall>rest m r. termLoop m a rest = Some r \<longrightarrow>
            (\<exists>n. termP n (astToks A b a @ rest) = Some r))) \<and>
      (\<not> addLevel a \<and> \<not> mulLevel a \<longrightarrow>
         (\<forall>rest. \<exists>n. factor n (astToks A b a @ rest) = Some (Inr (a, rest)))))"

lemma parses_expr:
  assumes "parses A b a" and "endsTerm rest" and "exprLoop m a rest = Some r"
  shows "\<exists>n. expr n (astToks A b a @ rest) = Some r"
  using assms unfolding parses_def by blast

lemma parses_term:
  assumes "parses A b a" and "\<not> addLevel a" and "termLoop m a rest = Some r"
  shows "\<exists>n. termP n (astToks A b a @ rest) = Some r"
  using assms unfolding parses_def by blast

lemma parses_factor:
  assumes "parses A b a" and "\<not> addLevel a" and "\<not> mulLevel a"
  shows "\<exists>n. factor n (astToks A b a @ rest) = Some (Inr (a, rest))"
  using assms unfolding parses_def by blast

text \<open>From the parsing of a tree by \<open>factor\<close>, the two other levels.\<close>

lemma term_of_factor:
  assumes "factor n1 (ts @ rest) = Some (Inr (a, rest))" and "termLoop m a rest = Some r"
  shows "\<exists>n. termP n (ts @ rest) = Some r"
proof -
  let ?n = "max n1 m"
  have "factor ?n (ts @ rest) = Some (Inr (a, rest))" using assms(1) by (rule factor_fuel) simp
  moreover have "termLoop ?n a rest = Some r" using assms(2) by (rule termLoop_fuel) simp
  ultimately have "termP (Suc ?n) (ts @ rest) = Some r" by (simp add: bindP_def)
  then show ?thesis ..
qed

lemma expr_of_term:
  assumes "termP n1 (ts @ rest) = Some (Inr (a, rest))" and "exprLoop m a rest = Some r"
  shows "\<exists>n. expr n (ts @ rest) = Some r"
proof -
  let ?n = "max n1 m"
  have "termP ?n (ts @ rest) = Some (Inr (a, rest))" using assms(1) by (rule termP_fuel) simp
  moreover have "exprLoop ?n a rest = Some r" using assms(2) by (rule exprLoop_fuel) simp
  ultimately have "expr (Suc ?n) (ts @ rest) = Some r" by (simp add: bindP_def)
  then show ?thesis ..
qed

text \<open>A tree in parentheses is parsed by \<open>factor\<close>.\<close>

lemma factor_paren:
  assumes "parses A b a"
  shows "\<exists>n. factor n (CharTok CHR ''('' # astToks A b a @ CharTok CHR '')'' # rest) = Some (Inr (a, rest))"
proof -
  let ?rest = "CharTok CHR '')'' # rest"
  have e: "endsExpr ?rest" by (simp add: endsExpr_def)
  obtain n where "expr n (astToks A b a @ ?rest) = Some (Inr (a, ?rest))"
    using parses_expr [OF assms endsExpr_endsTerm [OF e] exprLoop_ends [OF e, of 0]] by blast
  then have "factor (Suc n) (CharTok CHR ''('' # astToks A b a @ ?rest) = Some (Inr (a, rest))"
    by (simp add: bindP_def)
  then show ?thesis ..
qed

lemma factor_block:
  assumes "parses A b a" and "p \<or> (\<not> addLevel a \<and> \<not> mulLevel a)"
  shows "\<exists>n. factor n (parenToks p (astToks A b a) @ rest) = Some (Inr (a, rest))"
proof (cases p)
  case True
  then show ?thesis using factor_paren [OF assms(1), of rest] by (simp add: parenToks_def)
next
  case False
  then show ?thesis using parses_factor [OF assms(1), of rest] assms(2) by (simp add: parenToks_def)
qed


lemma parses_of_factor:
  assumes "\<And>rest. \<exists>n. factor n (astToks A b a @ rest) = Some (Inr (a, rest))"
  shows "parses A b a"
proof -
  have T: "\<exists>n. termP n (astToks A b a @ rest) = Some r" if "termLoop m a rest = Some r" for rest m r
    using assms [of rest] term_of_factor [OF _ that] by blast
  have E: "\<exists>n. expr n (astToks A b a @ rest) = Some r"
    if e: "endsTerm rest" and l: "exprLoop m a rest = Some r" for rest m r
  proof -
    obtain n1 where "termP n1 (astToks A b a @ rest) = Some (Inr (a, rest))"
      using T [OF termLoop_ends [OF e, of 0]] by blast
    then show ?thesis using expr_of_term [OF _ l] by blast
  qed
  show ?thesis unfolding parses_def using assms T E by blast
qed

lemma parses_of_term:
  assumes "\<And>rest m r. termLoop m a rest = Some r \<Longrightarrow> \<exists>n. termP n (astToks A b a @ rest) = Some r"
    and "mulLevel a"
  shows "parses A b a"
proof -
  have E: "\<exists>n. expr n (astToks A b a @ rest) = Some r"
    if e: "endsTerm rest" and l: "exprLoop m a rest = Some r" for rest m r
  proof -
    obtain n1 where "termP n1 (astToks A b a @ rest) = Some (Inr (a, rest))"
      using assms(1) [OF termLoop_ends [OF e, of 0]] by blast
    then show ?thesis using expr_of_term [OF _ l] by blast
  qed
  show ?thesis unfolding parses_def using assms E by blast
qed

lemma parses_of_expr:
  assumes "\<And>rest m r. endsTerm rest \<Longrightarrow> exprLoop m a rest = Some r \<Longrightarrow>
             \<exists>n. expr n (astToks A b a @ rest) = Some r"
    and "addLevel a"
  shows "parses A b a"
  unfolding parses_def using assms by blast

lemma precOf_values: "precOf k = 10 \<or> precOf k = 20 \<or> precOf k = 100"
  by (cases k) (auto simp: precOf_def FNS_def MAX_PREC_def)

lemma isOp_precOf: "isOp k \<longleftrightarrow> precOf k \<le> 20"
  by (cases k) (auto simp: precOf_def isOp_def FNS_def MAX_PREC_def)

lemma argToks_Cons:
  "argToks (t # ts) = t @ concat (map (\<lambda>u. CharTok CHR '','' # u) ts)"
  by (induction ts arbitrary: t) simp_all

lemma endsExpr_args:
  "endsExpr (concat (map (\<lambda>k. CharTok CHR '','' # astToks A b k) ks) @ CharTok CHR '')'' # rest)"
  by (cases ks) (simp_all add: endsExpr_def)

lemma argsLoop_kids:
  assumes "\<And>k. k \<in> set ks \<Longrightarrow> parses A b k"
  shows "\<exists>n. argsLoop n acc
           (concat (map (\<lambda>k. CharTok CHR '','' # astToks A b k) ks) @ CharTok CHR '')'' # rest) =
         Some (Inr (acc @ ks, CharTok CHR '')'' # rest))"
  using assms
proof (induction ks arbitrary: acc)
  case Nil
  have "argsLoop (Suc 0) acc (CharTok CHR '')'' # rest) = Some (Inr (acc, CharTok CHR '')'' # rest))"
    by simp
  then show ?case by (intro exI [of _ "Suc 0"]) simp
next
  case (Cons k ks)
  let ?rest2 = "concat (map (\<lambda>k. CharTok CHR '','' # astToks A b k) ks) @ CharTok CHR '')'' # rest"
  have e: "endsExpr ?rest2" by (rule endsExpr_args)
  obtain n1 where 1: "expr n1 (astToks A b k @ ?rest2) = Some (Inr (k, ?rest2))"
    using parses_expr [OF Cons.prems endsExpr_endsTerm [OF e] exprLoop_ends [OF e, of 0]]
    by auto
  obtain n2 where 2: "argsLoop n2 (acc @ [k]) ?rest2 = Some (Inr ((acc @ [k]) @ ks, CharTok CHR '')'' # rest))"
    using Cons.IH [of "acc @ [k]"] Cons.prems by auto
  let ?n = "max n1 n2"
  have "expr ?n (astToks A b k @ ?rest2) = Some (Inr (k, ?rest2))"
    using 1 by (rule expr_fuel) simp
  moreover have "argsLoop ?n (acc @ [k]) ?rest2 = Some (Inr ((acc @ [k]) @ ks, CharTok CHR '')'' # rest))"
    using 2 by (rule argsLoop_fuel) simp
  ultimately have "argsLoop (Suc ?n) acc (CharTok CHR '','' # astToks A b k @ ?rest2) =
      Some (Inr (acc @ k # ks, CharTok CHR '')'' # rest))"
    by (simp add: bindP_def)
  then show ?case by (intro exI [of _ "Suc ?n"]) simp
qed

text \<open>Every well-formed tree is parsed from its tokens, at each of the three levels.\<close>

lemma arityOK_parses: "arityOK a \<Longrightarrow> parses A b a"
proof (induction a)
  case (Num v)
  have "factor (Suc 0) (astToks A b (Num v) @ rest) = Some (Inr (Num v, rest))" for rest
    by simp
  then show ?case by (intro parses_of_factor) blast
next
  case (Ref r)
  have "factor (Suc 0) (astToks A b (Ref r) @ rest) = Some (Inr (Ref r, rest))" for rest
    by simp
  then show ?case by (intro parses_of_factor) blast
next
  case (App fn kids)
  have IH: "parses A b k" if "k \<in> set kids" for k
    using App.IH [OF that] App.prems that by (auto simp: list_all_iff)
  from App.prems show ?case
  proof (cases rule: arityOK_cases)
    case (binary op k0 k1)
    obtain p where f: "FNS fn = Some \<lparr> prec = Some p, isLeft = True \<rparr>"
        and p: "p = 10 \<or> p = 20" "p = 10 \<longleftrightarrow> op = CHR ''+'' \<or> op = CHR ''-''"
      using FNS_binary [OF binary(2)] binary(1) by auto
    define p0 where "p0 = (precOf k0 < p)"
    define p1 where "p1 = (precOf k1 \<le> p)"
    have k: "parses A b k0" "parses A b k1" using IH binary(3) by simp_all
    have t: "astToks A b (App fn kids) =
        parenToks p0 (astToks A b k0) @ CharTok op # parenToks p1 (astToks A b k1)"
      using f binary(1,3) by (simp add: p0_def p1_def precOf_def)
    let ?rest1 = "\<lambda>rest. CharTok op # parenToks p1 (astToks A b k1) @ rest"
    show ?thesis
    proof (cases "p = 10")
      case True
      then have op: "op = CHR ''+'' \<or> op = CHR ''-''" using p(2) by simp
      have np0: "\<not> p0" using precOf_values [of k0] True by (auto simp: p0_def)
      have lv: "addLevel (App fn kids)" using op binary(1,3) by auto
      show ?thesis
      proof (rule parses_of_expr [OF _ lv])
        fix rest m r
        assume e: "endsTerm rest" and l: "exprLoop m (App fn kids) rest = Some r"
        obtain n1 where 1: "termP n1 (parenToks p1 (astToks A b k1) @ rest) = Some (Inr (k1, rest))"
        proof (cases p1)
          case True
          obtain n0 where "factor n0 (parenToks p1 (astToks A b k1) @ rest) = Some (Inr (k1, rest))"
            using factor_block [OF k(2), of p1 rest] True by blast
          then show ?thesis
            using term_of_factor [OF _ termLoop_ends [OF e, of 0]] that by blast
        next
          case False
          then have "\<not> addLevel k1" using addLevel_prec [of k1] \<open>p = 10\<close> by (auto simp: p1_def)
          then show ?thesis
            using parses_term [OF k(2) _ termLoop_ends [OF e, of 0]] False that
            by (auto simp: parenToks_def)
        qed
        let ?n = "max n1 m"
        have "termP ?n (parenToks p1 (astToks A b k1) @ rest) = Some (Inr (k1, rest))"
          using 1 by (rule termP_fuel) simp
        moreover have "exprLoop ?n (App fn kids) rest = Some r"
          using l by (rule exprLoop_fuel) simp
        ultimately have 2: "exprLoop (Suc ?n) k0 (?rest1 rest) = Some r"
          using op binary(1,3) by (auto simp: bindP_def)
        have "endsTerm (?rest1 rest)" using op by (auto simp: endsTerm_def)
        then obtain n where "expr n (astToks A b k0 @ ?rest1 rest) = Some r"
          using parses_expr [OF k(1) _ 2] by blast
        then show "\<exists>n. expr n (astToks A b (App fn kids) @ rest) = Some r"
          unfolding t using np0 by (auto simp: parenToks_def)
      qed
    next
      case False
      then have p20: "p = 20" and op: "op = CHR ''*'' \<or> op = CHR ''/''"
        using p binary(2) by auto
      have lv: "mulLevel (App fn kids)" using op binary(1,3) by auto
      show ?thesis
      proof (rule parses_of_term [OF _ lv])
        fix rest m r
        assume l: "termLoop m (App fn kids) rest = Some r"
        have "p1 \<or> (\<not> addLevel k1 \<and> \<not> mulLevel k1)"
          using addLevel_prec [of k1] mulLevel_prec [of k1] p20 by (auto simp: p1_def)
        then obtain n1 where 1: "factor n1 (parenToks p1 (astToks A b k1) @ rest) = Some (Inr (k1, rest))"
          using factor_block [OF k(2), of p1 rest] by blast
        let ?n = "max n1 m"
        have "factor ?n (parenToks p1 (astToks A b k1) @ rest) = Some (Inr (k1, rest))"
          using 1 by (rule factor_fuel) simp
        moreover have "termLoop ?n (App fn kids) rest = Some r"
          using l by (rule termLoop_fuel) simp
        ultimately have 2: "termLoop (Suc ?n) k0 (?rest1 rest) = Some r"
          using op binary(1,3) by (auto simp: bindP_def)
        have "\<exists>n. termP n (parenToks p0 (astToks A b k0) @ ?rest1 rest) = Some r"
        proof (cases p0)
          case True
          obtain n0 where "factor n0 (parenToks p0 (astToks A b k0) @ ?rest1 rest) =
              Some (Inr (k0, ?rest1 rest))"
            using factor_block [OF k(1), of p0 "?rest1 rest"] True by blast
          then show ?thesis using term_of_factor [OF _ 2] by blast
        next
          case False
          then have "\<not> addLevel k0" using addLevel_prec [of k0] p20 by (auto simp: p0_def)
          then show ?thesis
            using parses_term [OF k(1) _ 2] False by (auto simp: parenToks_def)
        qed
        then show "\<exists>n. termP n (astToks A b (App fn kids) @ rest) = Some r"
          unfolding t by simp
      qed
    qed
  next
    case (negation k)
    have f: "FNS fn = Some \<lparr> prec = Some 10, isLeft = True \<rparr>"
      using negation(1) by (simp add: FNS_def)
    have k: "parses A b k" using IH negation(2) by simp
    have t: "astToks A b (App fn kids) = CharTok CHR ''-'' # parenToks (isOp k) (astToks A b k)"
      using f negation by (simp add: isOp_def)
    show ?thesis
    proof (rule parses_of_factor)
      fix rest
      have "isOp k \<or> (\<not> addLevel k \<and> \<not> mulLevel k)"
        using addLevel_prec [of k] mulLevel_prec [of k] by auto
      then obtain n1 where "factor n1 (parenToks (isOp k) (astToks A b k) @ rest) = Some (Inr (k, rest))"
        using factor_block [OF k, of "isOp k" rest] by blast
      then have "factor (Suc n1) (astToks A b (App fn kids) @ rest) = Some (Inr (App fn kids, rest))"
        unfolding t using negation by (simp add: bindP_def)
      then show "\<exists>n. factor n (astToks A b (App fn kids) @ rest) = Some (Inr (App fn kids, rest))" ..
    qed
  next
    case named
    have f: "FNS fn = Some \<lparr> prec = None, isLeft = False \<rparr>"
      using FNS_named [OF named(1)] .
    obtain k ks where kids: "kids = k # ks" using named(2) by (cases kids) auto
    let ?rest2 = "\<lambda>rest. concat (map (\<lambda>k. CharTok CHR '','' # astToks A b k) ks) @ CharTok CHR '')'' # rest"
    have t: "astToks A b (App fn kids) @ rest =
        FnTok fn # CharTok CHR ''('' # astToks A b k @ ?rest2 rest" for rest
      using f kids by (simp add: argToks_Cons comp_def)
    show ?thesis
    proof (rule parses_of_factor)
      fix rest
      have e: "endsExpr (?rest2 rest)" by (rule endsExpr_args)
      have "parses A b k" using IH kids by simp
      then obtain n1 where 1: "expr n1 (astToks A b k @ ?rest2 rest) = Some (Inr (k, ?rest2 rest))"
        using parses_expr [OF _ endsExpr_endsTerm [OF e] exprLoop_ends [OF e, of 0]] by blast
      obtain n2 where 2: "argsLoop n2 [k] (?rest2 rest) = Some (Inr ([k] @ ks, CharTok CHR '')'' # rest))"
        using argsLoop_kids [of ks A b "[k]" rest] IH kids by auto
      let ?n = "max n1 n2"
      have "expr ?n (astToks A b k @ ?rest2 rest) = Some (Inr (k, ?rest2 rest))"
        using 1 by (rule expr_fuel) simp
      moreover have "argsLoop ?n [k] (?rest2 rest) = Some (Inr ([k] @ ks, CharTok CHR '')'' # rest))"
        using 2 by (rule argsLoop_fuel) simp
      ultimately have "factor (Suc ?n) (astToks A b (App fn kids) @ rest) =
          Some (Inr (App fn kids, rest))"
        unfolding t by (simp add: bindP_def kids)
      then show "\<exists>n. factor n (astToks A b (App fn kids) @ rest) = Some (Inr (App fn kids, rest))" ..
    qed
  qed
qed

section \<open>Printing, then parsing\<close>

text \<open>The printer succeeds on a well-formed tree when every reference is in range at
  the base cell, and throws a \<^verbatim>\<open>SYNTAX\<close> error otherwise.\<close>

definition refsInRange :: "'n ast \<Rightarrow> cellref \<Rightarrow> bool" where
  "refsInRange a b = list_all (\<lambda>r. refInRange r b) (refsOf a)"

definition printsOrSyntax :: "bool \<Rightarrow> error + 'a \<Rightarrow> bool" where
  "printsOrSyntax ok res = (if ok then \<exists>s. res = Inr s else \<exists>msg. res = Inl (AppError SYNTAX msg))"

lemma kidsToStr_cases:
  assumes "\<And>k. k \<in> set ks \<Longrightarrow> printsOrSyntax (refsInRange k b) (astToStr A k b)"
  shows "printsOrSyntax (list_all (\<lambda>k. refsInRange k b) ks) (kidsToStr A ks b)"
  using assms
proof (induction ks)
  case Nil
  then show ?case by (simp add: printsOrSyntax_def)
next
  case (Cons k ks)
  have 1: "printsOrSyntax (refsInRange k b) (astToStr A k b)" using Cons.prems by simp
  have 2: "printsOrSyntax (list_all (\<lambda>k. refsInRange k b) ks) (kidsToStr A ks b)"
    using Cons by simp
  show ?case
    using 1 2 by (cases "refsInRange k b"; cases "list_all (\<lambda>k. refsInRange k b) ks")
      (auto simp: printsOrSyntax_def)
qed

lemma refsInRange_App: "refsInRange (App fn kids) b \<longleftrightarrow> list_all (\<lambda>k. refsInRange k b) kids"
  by (induction kids) (simp_all add: refsInRange_def)

lemma astToStr_cases: "arityOK a \<Longrightarrow> printsOrSyntax (refsInRange a b) (astToStr A a b)"
proof (induction a)
  case (Num v)
  then show ?case by (simp add: printsOrSyntax_def refsInRange_def)
next
  case (Ref r)
  then show ?case
    using cellRefToString_inRange [of r b] cellRefToString_outOfRange [of r b]
    by (auto simp: printsOrSyntax_def refsInRange_def)
next
  case (App fn kids)
  have IH: "printsOrSyntax (refsInRange k b) (astToStr A k b)" if "k \<in> set kids" for k
    using App.IH [OF that] App.prems that by (auto simp: list_all_iff)
  from App.prems show ?case
  proof (cases rule: arityOK_cases)
    case (binary op k0 k1)
    obtain p where f: "FNS fn = Some \<lparr> prec = Some p, isLeft = True \<rparr>"
      using FNS_binary [OF binary(2)] binary(1) by auto
    have "printsOrSyntax (refsInRange k0 b) (astToStr A k0 b)"
      "printsOrSyntax (refsInRange k1 b) (astToStr A k1 b)"
      using IH binary(3) by simp_all
    then show ?thesis
      using f binary(3)
      by (cases "refsInRange k0 b"; cases "refsInRange k1 b")
        (auto simp: printsOrSyntax_def refsInRange_App Let_def)
  next
    case (negation k)
    have f: "FNS fn = Some \<lparr> prec = Some 10, isLeft = True \<rparr>"
      using negation(1) by (simp add: FNS_def)
    have "printsOrSyntax (refsInRange k b) (astToStr A k b)" using IH negation(2) by simp
    then show ?thesis
      using f negation(2)
      by (cases "refsInRange k b") (auto simp: printsOrSyntax_def refsInRange_App Let_def)
  next
    case named
    have f: "FNS fn = Some \<lparr> prec = None, isLeft = False \<rparr>"
      using FNS_named [OF named(1)] .
    have "printsOrSyntax (list_all (\<lambda>k. refsInRange k b) kids) (kidsToStr A kids b)"
      using IH by (rule kidsToStr_cases)
    then show ?thesis
      using f by (cases "list_all (\<lambda>k. refsInRange k b) kids")
        (auto simp: printsOrSyntax_def refsInRange_App)
  qed
qed

text \<open>The round trip on the tokens, then on the text.\<close>

lemma parseToks_astToks:
  assumes "arityOK a"
  shows "parseToks (astToks A b a @ [EndTok]) = Some (Inr a)"
proof -
  have e: "endsExpr [EndTok :: 'a token]" by (simp add: endsExpr_def)
  obtain n where "expr n (astToks A b a @ [EndTok]) = Some (Inr (a, [EndTok]))"
    using parses_expr [OF arityOK_parses [OF assms] endsExpr_endsTerm [OF e]
        exprLoop_ends [OF e, of 0]]
    by blast
  then have "expr (parseDepth (astToks A b a @ [EndTok])) (astToks A b a @ [EndTok]) =
      Some (Inr (a, [EndTok]))"
    by (rule parseToks_any_depth)
  then show ?thesis by (simp add: parseToks_def)
qed

lemma scan_astToStr:
  assumes "arityOK a" and "numsOK A a" and "astToStr A a b = Inr s"
  shows "scan A s b = Inr (astToks A b a @ [EndTok])"
  using astToStr_scan [OF assms delim_Nil] by (simp add: scan_Nil pre_def)

lemma print_then_parse:
  assumes "arityOK a" and "numsOK A a" and "astToString A a c = Inr s"
  shows "parseExpr A s c = Some (Inr a)"
proof -
  obtain b where b: "newCellRef c None = Inr b" and s: "astToStr A a b = Inr s"
    using assms(3) by (auto simp: astToString_def split: sum.splits)
  show ?thesis
    using b scan_astToStr [OF assms(1,2) s] parseToks_astToks [OF assms(1), of A b]
    by (simp add: parseExpr_def)
qed

lemma astToString_cases:
  assumes "arityOK a" and "newCellRef c None = Inr b"
  shows "printsOrSyntax (refsInRange a b) (astToString A a c)"
  using astToStr_cases [OF assms(1), of b A] assms(2) by (simp add: astToString_def)

text \<open>
  C4, as the code has it.  Let \<open>a\<close> be a well-formed tree whose numbers are literal values
  (numbers that the printer writes as numeric literals, which the scanner reads as the
  same numbers: the non-negative finite ones), let \<open>c\<close> be the id of a base cell, and let
  every reference of \<open>a\<close> be in range at that cell.  Then the printer succeeds on \<open>a\<close> at
  \<open>c\<close>, and the parser, on the printed text at \<open>c\<close>, returns \<open>a\<close>.
\<close>

theorem print_parse_round_trip:
  assumes "arityOK a" and "numsOK A a" and "newCellRef c None = Inr b" and "refsInRange a b"
  shows "\<exists>s. astToString A a c = Inr s \<and> parseExpr A s c = Some (Inr a)"
proof -
  obtain s where s: "astToString A a c = Inr s"
    using astToString_cases [OF assms(1,3), of A] assms(4) by (auto simp: printsOrSyntax_def)
  then show ?thesis using print_then_parse [OF assms(1,2) s] by blast
qed

text \<open>
  The tree of \<^verbatim>\<open>(1.5+c$2)*$b3-max(-2, a5)\<close> in the cell \<^verbatim>\<open>a5\<close>: the column of \<^verbatim>\<open>c$2\<close> is
  two to the right of the cell, the row of \<^verbatim>\<open>$b3\<close> two above it.
\<close>

theorem print_parse_round_trip_witness:
  "\<exists>a b. arityOK a \<and> numsOK jsArith a \<and> newCellRef ''a5'' None = Inr b \<and> refsInRange a b \<and>
     (\<exists>s. astToString jsArith a ''a5'' = Inr s \<and> parseExpr jsArith s ''a5'' = Some (Inr a)) \<and>
     astToString jsArith a ''a5'' = Inr ''(1.5+c$2)*$b3-max(-2, a5)''"
proof -
  let ?c2 = "\<lparr> col = \<lparr> isAbs = False, index = 2 \<rparr>, row = \<lparr> isAbs = True, index = 1 \<rparr> \<rparr>"
  let ?b3 = "\<lparr> col = \<lparr> isAbs = True, index = 1 \<rparr>, row = \<lparr> isAbs = False, index = - 2 \<rparr> \<rparr>"
  let ?a = "App ''-'' [App ''*'' [App ''+'' [Num (Double 3 (- 1)), Ref ?c2], Ref ?b3],
                        App ''max'' [App ''-'' [Num (Exact 2)], Ref (rel 0 0)]]"
  let ?b = "\<lparr> col = \<lparr> isAbs = False, index = 0 \<rparr>, row = \<lparr> isAbs = False, index = 4 \<rparr> \<rparr>"
  have 1: "arityOK ?a"
    by code_simp
  have 2: "numsOK jsArith ?a"
    by code_simp
  have 3: "newCellRef ''a5'' None = Inr ?b"
    by code_simp
  have 4: "refsInRange ?a ?b"
    by code_simp
  have 5: "astToString jsArith ?a ''a5'' = Inr ''(1.5+c$2)*$b3-max(-2, a5)''"
    by code_simp
  from print_parse_round_trip [OF 1 2 3 4] 1 2 3 4 5 show ?thesis
    by (intro exI [of _ ?a] exI [of _ ?b]) (simp only: simp_thms)
qed

text \<open>
  C4, as the claim has it, fails on a tree with a negative number: it is well formed
  and has no reference, it prints as \<^verbatim>\<open>-5\<close>, and \<^verbatim>\<open>-5\<close> is parsed as the negation of 5.
\<close>

theorem negative_number_counterexample:
  "arityOK (Num (Exact (- 5))) \<and>
   newCellRef ''a1'' None = Inr (rel 0 0) \<and>
   refsInRange (Num (Exact (- 5))) (rel 0 0) \<and>
   astToString jsArith (Num (Exact (- 5))) ''a1'' = Inr ''-5'' \<and>
   parseExpr jsArith ''-5'' ''a1'' = Some (Inr (App ''-'' [Num (Exact 5)]))"
  by code_simp

section \<open>Deleting a cell that is not there\<close>

text \<open>What the final store call of \<^verbatim>\<open>delete\<close> does to the result and the state.\<close>

lemma storeDelete_cases:
  assumes "store st = s" and "storeLog st = l" and "cells st = cs"
  shows "\<exists>r st'. storeDelete cellId results st = Some (r, st') \<and> cells st' = cs \<and>
     (case s of
        None \<Rightarrow> r = Inr results \<and> storeLog st' = l
      | Some os \<Rightarrow>
          storeLog st' = l @ [DeleteCell cellId] \<and>
          r = (case os of Some e # _ \<Rightarrow> Inl e | _ \<Rightarrow> Inr results))"
  using assms by (auto simp: storeDelete_def callStore_def split: option.splits list.splits)

text \<open>
  C6, as the code has it.  For an id that names no cell (and no inherited property of
  the table object), \<^verbatim>\<open>delete\<close> leaves the cell table as it is, issues the delete to
  the store when there is one, and returns the empty updates map unless the store
  throws.  For an existing cell without dependents the same holds, except that the
  cell is removed from the table.
\<close>

theorem delete_without_dependents:
  assumes "toLowerCase i \<notin> set objectProtoNames"
    and "case map_of (cells st) (toLowerCase i) of None \<Rightarrow> True | Some c \<Rightarrow> dependents c = []"
  shows "\<exists>r st'. delete fuel A i st = Some (r, st') \<and>
           cells st' = (case map_of (cells st) (toLowerCase i) of
                          None \<Rightarrow> cells st
                        | Some c \<Rightarrow> AList.delete (cid c) (cells st)) \<and>
           (case store st of
              None \<Rightarrow> r = Inr [] \<and> storeLog st' = storeLog st
            | Some os \<Rightarrow>
                storeLog st' = storeLog st @ [DeleteCell (toLowerCase i)] \<and>
                r = (case os of Some e # _ \<Rightarrow> Inl e | _ \<Rightarrow> Inr []))"
proof (cases "map_of (cells st) (toLowerCase i)")
  case None
  define st0 where "st0 = st \<lparr> undos := [] \<rparr>"
  have "delete fuel A i st = storeDelete (toLowerCase i) [] st0"
    using assms(1) None by (simp add: delete_def Let_def st0_def)
  moreover have "store st0 = store st" "storeLog st0 = storeLog st" "cells st0 = cells st"
    by (simp_all add: st0_def)
  ultimately show ?thesis
    using storeDelete_cases [of st0 "store st" "storeLog st" "cells st" "toLowerCase i" "[]"] None
    by simp
next
  case (Some c)
  define st2 where "st2 = (recordUndo (toLowerCase i) (st \<lparr> undos := [] \<rparr>))
      \<lparr> cells := AList.delete (cid c) (cells st) \<rparr>"
  have "dependents c = []" using assms(2) Some by simp
  then have "delete fuel A i st = storeDelete (toLowerCase i) [] st2"
    using Some by (simp add: delete_def Let_def st2_def recordUndo_def)
  moreover have "store st2 = store st" "storeLog st2 = storeLog st"
    "cells st2 = AList.delete (cid c) (cells st)"
    by (simp_all add: st2_def recordUndo_def)
  ultimately show ?thesis
    using storeDelete_cases [of st2 "store st" "storeLog st" "AList.delete (cid c) (cells st)"
        "toLowerCase i" "[]"] Some
    by simp
qed

theorem delete_without_dependents_witness:
  "toLowerCase ''Z9'' \<notin> set objectProtoNames \<and>
   (\<exists>st'. delete 0 jsArith ''Z9'' (newSpreadsheet (Some [])) = Some (Inr [], st') \<and>
      cells st' = [] \<and> storeLog st' = [DeleteCell ''z9''])"
proof -
  have h1: "toLowerCase ''Z9'' \<notin> set objectProtoNames"
    by code_simp
  have h2: "case map_of (cells (newSpreadsheet (Some []) :: jsnum spreadsheet)) (toLowerCase ''Z9'') of
              None \<Rightarrow> True | Some c \<Rightarrow> dependents c = []"
    by (simp add: newSpreadsheet_def)
  have l: "toLowerCase ''Z9'' = ''z9''"
    by code_simp
  from delete_without_dependents [OF h1 h2, of 0 jsArith] h1 l show ?thesis
    by (auto simp: newSpreadsheet_def)
qed

text \<open>
  C6, as the claim has it, fails for an empty cell that other cells refer to.  After
  \<^verbatim>\<open>eval("b1","a1")\<close> on an empty sheet the cell \<^verbatim>\<open>a1\<close> is empty and kept alive by the
  back-edge from \<^verbatim>\<open>b1\<close>; \<^verbatim>\<open>delete("a1")\<close> evaluates \<^verbatim>\<open>b1\<close> again and returns \<^verbatim>\<open>{b1: 0}\<close>,
  not the empty map.
\<close>

theorem delete_empty_cell_counterexample:
  "\<exists>st1.
     eval 3 jsArith ''b1'' ''a1'' True (newSpreadsheet None) = Some (Inr [(''b1'', Exact 0)], st1) \<and>
     map_option isEmpty (map_of (cells st1) ''a1'') = Some True \<and>
     map_option fst (delete 3 jsArith ''a1'' st1) = Some (Inr [(''b1'', Exact 0)]) \<and>
     map_option fst (delete 3 jsArith ''a1'' st1) \<noteq> Some (Inr [])"
proof -
  let ?a1 = "\<lparr> cid = ''a1'', val = Exact 0, ast = None, dependents = [''b1''] \<rparr>"
  let ?b1 = "\<lparr> cid = ''b1'', val = Exact 0, ast = Some (Ref (rel (- 1) 0)), dependents = [] \<rparr>"
  let ?st1 = "\<lparr> store = None, storeLog = [], cells = [(''b1'', ?b1), (''a1'', ?a1)],
                undos = [(''b1'', None), (''a1'', None)] \<rparr>"
  have 1: "eval 3 jsArith ''b1'' ''a1'' True (newSpreadsheet None) =
             Some (Inr [(''b1'', Exact 0)], ?st1)"
    by code_simp
  have 2: "map_option isEmpty (map_of (cells ?st1) ''a1'') = Some True"
    by code_simp
  have 3: "map_option fst (delete 3 jsArith ''a1'' ?st1) = Some (Inr [(''b1'', Exact 0)])"
    by code_simp
  have 4: "map_option fst (delete 3 jsArith ''a1'' ?st1) \<noteq> Some (Inr [])"
    unfolding 3 by simp
  from 1 2 3 4 show ?thesis by blast
qed

section \<open>Copying a cell\<close>

lemma lowerChar_idem: "lowerChar (lowerChar c) = lowerChar c"
  by (simp add: lowerChar_def isUpper_def)

lemma isSpace_lowerChar: "isSpace (lowerChar c) = isSpace c"
  by (auto simp: lowerChar_def isUpper_def isSpace_def)

lemma toLowerCase_idem: "toLowerCase (toLowerCase s) = toLowerCase s"
  by (simp add: toLowerCase_def lowerChar_idem)

lemma dropWhile_isSpace_lower:
  "dropWhile isSpace (map lowerChar xs) = map lowerChar (dropWhile isSpace xs)"
  by (induction xs) (simp_all add: isSpace_lowerChar)

lemma trim_toLowerCase: "trim (toLowerCase s) = toLowerCase (trim s)"
  by (simp add: trim_def toLowerCase_def dropWhile_isSpace_lower rev_map)

lemma newCellRef_toLowerCase: "newCellRef (toLowerCase s) b = newCellRef s b"
  by (simp add: newCellRef_def trim_toLowerCase toLowerCase_idem)

lemma astToString_toLowerCase: "astToString A a (toLowerCase s) = astToString A a s"
  by (simp add: astToString_def newCellRef_toLowerCase)

lemma cellRefToCellId_toLowerCase: "cellRefToCellId (toLowerCase s) = cellRefToCellId s"
  by (simp add: cellRefToCellId_def toLowerCase_idem)

lemma eval_toLowerCase:
  "eval fuel A (toLowerCase b) f u (st \<lparr> undos := [] \<rparr>) = eval fuel A b f u st"
  by (simp add: eval_def cellRefToCellId_toLowerCase)

lemma delete_toLowerCase:
  "delete fuel A (toLowerCase i) (st \<lparr> undos := [] \<rparr>) = delete fuel A i st"
  by (simp add: delete_def toLowerCase_idem)

text \<open>The exception that \<^verbatim>\<open>copy\<close> throws when the formula \<open>f\<close> of the source cannot be
  printed for the destination: a \<^verbatim>\<open>SYNTAX\<close> error gets a longer message.\<close>

definition copyError :: "string \<Rightarrow> string \<Rightarrow> error \<Rightarrow> error" where
  "copyError f destCellId err =
     (if err_code err = Some SYNTAX
      then AppError SYNTAX (''cannot copy formula '' @ f @ '' to '' @ destCellId @ '': '' @
             err_message err)
      else err)"

lemma copyError_SYNTAX: "err_code e = Some SYNTAX \<Longrightarrow> err_code (copyError f d e) = Some SYNTAX"
  by (simp add: copyError_def)

text \<open>The branches of \<^verbatim>\<open>copy\<close>, for a source whose cell carries its key as its id.\<close>

lemma copy_cases:
  assumes "query A src st = Inr (v, f)"
    and "case map_of (cells st) (toLowerCase src) of None \<Rightarrow> True | Some c \<Rightarrow> cid c = toLowerCase src"
  shows "if f = [] then copy fuel A dest src st = delete fuel A dest st
         else \<exists>a. map_option ast (map_of (cells st) (toLowerCase src)) = Some (Some a) \<and>
                copy fuel A dest src st =
                  (case astToString A a dest of
                     Inr destFormula \<Rightarrow> eval fuel A dest destFormula True st
                   | Inl e \<Rightarrow> Some (Inl (copyError f (toLowerCase dest) e), st \<lparr> undos := [] \<rparr>))"
proof (cases "map_of (cells st) (toLowerCase src)")
  case None
  then have "f = []" using assms(1) by (simp add: query_def)
  then show ?thesis using None by (simp add: copy_def Let_def delete_toLowerCase)
next
  case (Some c)
  have fc: "formula A c = Inr f" using assms(1) Some by (cases "formula A c") (simp_all add: query_def)
  have ic: "cid c = toLowerCase src" using assms(2) Some by simp
  show ?thesis
  proof (cases "ast c")
    case None
    then have "f = []" using fc by (simp add: formula_def)
    then show ?thesis using Some None fc by (simp add: copy_def Let_def delete_toLowerCase)
  next
    case (Some a)
    have pf: "astToString A a (toLowerCase src) = Inr f" using fc Some ic by (simp add: formula_def)
    show ?thesis
    proof (cases "f = []")
      case True
      then show ?thesis
        using \<open>map_of (cells st) (toLowerCase src) = Some c\<close> Some fc
        by (simp add: copy_def Let_def delete_toLowerCase)
    next
      case False
      then show ?thesis
        using \<open>map_of (cells st) (toLowerCase src) = Some c\<close> Some fc pf
        by (auto simp: copy_def Let_def eval_toLowerCase astToString_toLowerCase copyError_def
            split: sum.splits)
    qed
  qed
qed

text \<open>
  C8.  Let \<^verbatim>\<open>query(src)\<close> give the formula \<open>f\<close>, in a table whose cell at \<^verbatim>\<open>src\<close> carries
  its key as its id.  If \<open>f\<close> is empty, \<^verbatim>\<open>copy(dest, src)\<close> is \<^verbatim>\<open>delete(dest)\<close>: the same
  result and the same state.  Otherwise the source has an AST \<open>a\<close>, and \<^verbatim>\<open>copy\<close> is
  \<^verbatim>\<open>eval(dest, astToString(a, dest))\<close>, the same result and the same state, when that
  print succeeds; when the print throws, \<^verbatim>\<open>copy\<close> throws and the cell table is untouched.

  For a well-formed \<open>a\<close> and the id of a cell as \<^verbatim>\<open>dest\<close>, the print succeeds exactly
  when every reference of \<open>a\<close> is in range at \<^verbatim>\<open>dest\<close>, that is when the coordinates that
  its axes denote there (the index of an absolute axis, the coordinate of \<^verbatim>\<open>dest\<close> plus
  the index of a relative one) are within the sheet; otherwise \<^verbatim>\<open>copy\<close> throws a \<^verbatim>\<open>SYNTAX\<close>
  error.  The formula that is evaluated at \<^verbatim>\<open>dest\<close> is parsed there as the tree \<open>a\<close> itself
  (when the numbers of \<open>a\<close> are literal values): the copy has the relative references at
  the same offsets from \<^verbatim>\<open>dest\<close> and the absolute ones at the same coordinates.  In the
  text a reference is written as \<open>refText\<close> has it: the column letter and the row number
  of these coordinates, each after a \<^verbatim>\<open>$\<close> when the axis is absolute.
\<close>

theorem copy_is_print_then_parse:
  assumes "query A src st = Inr (v, f)"
    and "case map_of (cells st) (toLowerCase src) of None \<Rightarrow> True | Some c \<Rightarrow> cid c = toLowerCase src"
  shows "if f = [] then copy fuel A dest src st = delete fuel A dest st
         else \<exists>a. map_option ast (map_of (cells st) (toLowerCase src)) = Some (Some a) \<and>
                copy fuel A dest src st =
                  (case astToString A a dest of
                     Inr destFormula \<Rightarrow> eval fuel A dest destFormula True st
                   | Inl e \<Rightarrow> Some (Inl (copyError f (toLowerCase dest) e), st \<lparr> undos := [] \<rparr>)) \<and>
                (\<forall>b. newCellRef dest None = Inr b \<longrightarrow> arityOK a \<longrightarrow>
                   (if refsInRange a b
                    then \<exists>destFormula. astToString A a dest = Inr destFormula \<and>
                           copy fuel A dest src st = eval fuel A dest destFormula True st \<and>
                           (numsOK A a \<longrightarrow> parseExpr A destFormula dest = Some (Inr a))
                    else \<exists>msg. copy fuel A dest src st =
                           Some (Inl (AppError SYNTAX msg), st \<lparr> undos := [] \<rparr>))) \<and>
                (\<forall>b r. newCellRef dest None = Inr b \<longrightarrow> refInRange r b \<longrightarrow>
                   astToString A (Ref r) dest = Inr (refText r b))"
proof (cases "f = []")
  case True
  then show ?thesis using copy_cases [OF assms, of fuel dest] by simp
next
  case False
  then obtain a where a: "map_option ast (map_of (cells st) (toLowerCase src)) = Some (Some a)"
    and c: "copy fuel A dest src st =
              (case astToString A a dest of
                 Inr destFormula \<Rightarrow> eval fuel A dest destFormula True st
               | Inl e \<Rightarrow> Some (Inl (copyError f (toLowerCase dest) e), st \<lparr> undos := [] \<rparr>))"
    using copy_cases [OF assms, of fuel dest] by auto
  have 3: "if refsInRange a b
           then \<exists>destFormula. astToString A a dest = Inr destFormula \<and>
                  copy fuel A dest src st = eval fuel A dest destFormula True st \<and>
                  (numsOK A a \<longrightarrow> parseExpr A destFormula dest = Some (Inr a))
           else \<exists>msg. copy fuel A dest src st =
                  Some (Inl (AppError SYNTAX msg), st \<lparr> undos := [] \<rparr>)"
    if b: "newCellRef dest None = Inr b" and ar: "arityOK a" for b
  proof (cases "refsInRange a b")
    case True
    then obtain s where s: "astToString A a dest = Inr s"
      using astToString_cases [OF ar b, of A] by (auto simp: printsOrSyntax_def)
    have "numsOK A a \<longrightarrow> parseExpr A s dest = Some (Inr a)"
      using print_then_parse [OF ar _ s] by blast
    then show ?thesis using True s c by simp
  next
    case False
    then obtain msg where "astToString A a dest = Inl (AppError SYNTAX msg)"
      using astToString_cases [OF ar b, of A] by (auto simp: printsOrSyntax_def)
    then show ?thesis using False c by (simp add: copyError_def)
  qed
  have 4: "astToString A (Ref r) dest = Inr (refText r b)"
    if "newCellRef dest None = Inr b" and "refInRange r b" for b r
    using that by (simp add: astToString_def cellRefToString_inRange)
  have c3: "\<forall>b. newCellRef dest None = Inr b \<longrightarrow> arityOK a \<longrightarrow>
             (if refsInRange a b
              then \<exists>destFormula. astToString A a dest = Inr destFormula \<and>
                     copy fuel A dest src st = eval fuel A dest destFormula True st \<and>
                     (numsOK A a \<longrightarrow> parseExpr A destFormula dest = Some (Inr a))
              else \<exists>msg. copy fuel A dest src st =
                     Some (Inl (AppError SYNTAX msg), st \<lparr> undos := [] \<rparr>))"
    using 3 by (intro allI impI)
  have c4: "\<forall>b r. newCellRef dest None = Inr b \<longrightarrow> refInRange r b \<longrightarrow>
              astToString A (Ref r) dest = Inr (refText r b)"
    using 4 by (intro allI impI)
  show ?thesis
    unfolding if_not_P [OF False] by (intro exI [of _ a] conjI a c c3 c4)
qed

text \<open>
  An instance: after \<^verbatim>\<open>eval("a1","1")\<close> and \<^verbatim>\<open>eval("c2","a1+$a$1")\<close>, the formula of \<^verbatim>\<open>c2\<close>
  refers to the cell two columns to the left and one row up, and to the cell \<^verbatim>\<open>a1\<close>.
  \<^verbatim>\<open>copy("D3","c2")\<close> is \<^verbatim>\<open>eval("D3","b2+$a$1")\<close> and returns \<^verbatim>\<open>{d3: 1}\<close>; that formula is
  parsed at \<^verbatim>\<open>d3\<close> as the tree of \<^verbatim>\<open>c2\<close>.  \<^verbatim>\<open>copy("c1","c2")\<close> and \<^verbatim>\<open>copy("a2","c2")\<close>
  throw \<^verbatim>\<open>SYNTAX\<close>: there is no row above row 1 and no column left of column \<^verbatim>\<open>a\<close>.
\<close>

theorem copy_is_print_then_parse_witness:
  "\<exists>st1 st2 a.
     eval 3 jsArith ''a1'' ''1'' True (newSpreadsheet None) = Some (Inr [(''a1'', Exact 1)], st1) \<and>
     eval 3 jsArith ''c2'' ''a1+$a$1'' True st1 = Some (Inr [(''c2'', Exact 2)], st2) \<and>
     query jsArith ''c2'' st2 = Inr (Exact 2, ''a1+$a$1'') \<and>
     map_option ast (map_of (cells st2) ''c2'') = Some (Some a) \<and> arityOK a \<and> numsOK jsArith a \<and>
     refsInRange a (rel 3 2) \<and> \<not> refsInRange a (rel 2 0) \<and> \<not> refsInRange a (rel 0 1) \<and>
     copy 3 jsArith ''D3'' ''c2'' st2 = eval 3 jsArith ''D3'' ''b2+$a$1'' True st2 \<and>
     map_option fst (copy 3 jsArith ''D3'' ''c2'' st2) = Some (Inr [(''d3'', Exact 1)]) \<and>
     parseExpr jsArith ''b2+$a$1'' ''D3'' = Some (Inr a) \<and>
     (\<exists>msg. copy 3 jsArith ''c1'' ''c2'' st2 = Some (Inl (AppError SYNTAX msg), st2 \<lparr> undos := [] \<rparr>)) \<and>
     copy 3 jsArith ''c1'' ''c2'' st2 =
       Some (Inl (AppError SYNTAX
          ''cannot copy formula a1+$a$1 to c1: bad row spec 0 with index -1 relative to 0''),
        st2 \<lparr> undos := [] \<rparr>) \<and>
     copy 3 jsArith ''a2'' ''c2'' st2 =
       Some (Inl (AppError SYNTAX
          ''cannot copy formula a1+$a$1 to a2: bad column spec with index -2 relative to 0''),
        st2 \<lparr> undos := [] \<rparr>)"
proof -
  let ?a = "App ''+'' [Ref (rel (- 2) (- 1)),
                        Ref \<lparr> col = \<lparr> isAbs = True, index = 0 \<rparr>,
                              row = \<lparr> isAbs = True, index = 0 \<rparr> \<rparr>]"
  let ?a1 = "\<lparr> cid = ''a1'', val = Exact 1, ast = Some (Num (Exact 1)), dependents = [] \<rparr>"
  let ?c2 = "\<lparr> cid = ''c2'', val = Exact 2, ast = Some ?a, dependents = [] \<rparr>"
  let ?st1 = "\<lparr> store = None, storeLog = [], cells = [(''a1'', ?a1)],
                undos = [(''a1'', None)] \<rparr>"
  let ?st2 = "\<lparr> store = None, storeLog = [],
                cells = [(''a1'', ?a1 \<lparr> dependents := [''c2''] \<rparr>), (''c2'', ?c2)],
                undos = [(''c2'', None), (''a1'', Some ?a1)] \<rparr>"
  have 1: "eval 3 jsArith ''a1'' ''1'' True (newSpreadsheet None) =
             Some (Inr [(''a1'', Exact 1)], ?st1)"
    by code_simp
  have 2: "eval 3 jsArith ''c2'' ''a1+$a$1'' True ?st1 = Some (Inr [(''c2'', Exact 2)], ?st2)"
    by code_simp
  have q: "query jsArith ''c2'' ?st2 = Inr (Exact 2, ''a1+$a$1'')"
    by code_simp
  have k: "case map_of (cells ?st2) (toLowerCase ''c2'') of
             None \<Rightarrow> True | Some c \<Rightarrow> cid c = toLowerCase ''c2''"
    by code_simp
  have a: "map_option ast (map_of (cells ?st2) (toLowerCase ''c2'')) = Some (Some ?a)"
    by code_simp
  have a': "map_option ast (map_of (cells ?st2) ''c2'') = Some (Some ?a)"
    by code_simp
  have w: "arityOK ?a" "numsOK jsArith ?a"
    by code_simp+
  have b: "newCellRef ''D3'' None = Inr (rel 3 2)" "newCellRef ''c1'' None = Inr (rel 2 0)"
    by code_simp+
  have r: "refsInRange ?a (rel 3 2)" "\<not> refsInRange ?a (rel 2 0)" "\<not> refsInRange ?a (rel 0 1)"
    by code_simp+
  have p: "astToString jsArith ?a ''D3'' = Inr ''b2+$a$1''"
    by code_simp
  have f: "''a1+$a$1'' \<noteq> []"
    by simp
  let ?X = "\<lambda>dest a0. \<forall>b. newCellRef dest None = Inr b \<longrightarrow> arityOK a0 \<longrightarrow>
      (if refsInRange a0 b
       then \<exists>destFormula. astToString jsArith a0 dest = Inr destFormula \<and>
              copy 3 jsArith dest ''c2'' ?st2 = eval 3 jsArith dest destFormula True ?st2 \<and>
              (numsOK jsArith a0 \<longrightarrow> parseExpr jsArith destFormula dest = Some (Inr a0))
       else \<exists>msg. copy 3 jsArith dest ''c2'' ?st2 =
              Some (Inl (AppError SYNTAX msg), ?st2 \<lparr> undos := [] \<rparr>))"
  from copy_is_print_then_parse [OF q k, of 3 "''D3''", unfolded if_not_P [OF f]]
  obtain a0 where a0: "map_option ast (map_of (cells ?st2) (toLowerCase ''c2'')) = Some (Some a0)"
    and x0: "?X ''D3'' a0"
    by blast
  have "a0 = ?a" using a0 [unfolded a] by simp
  then have y0: "?X ''D3'' ?a" using x0 by (simp only:)
  note y0 [rule_format, OF b(1) w(1), unfolded if_P [OF r(1)]]
  then obtain df where df: "astToString jsArith ?a ''D3'' = Inr df"
      "copy 3 jsArith ''D3'' ''c2'' ?st2 = eval 3 jsArith ''D3'' df True ?st2"
      "numsOK jsArith ?a \<longrightarrow> parseExpr jsArith df ''D3'' = Some (Inr ?a)"
    by blast
  have "df = ''b2+$a$1''" using df(1) [unfolded p] by simp
  then have d3: "copy 3 jsArith ''D3'' ''c2'' ?st2 = eval 3 jsArith ''D3'' ''b2+$a$1'' True ?st2 \<and>
            parseExpr jsArith ''b2+$a$1'' ''D3'' = Some (Inr ?a)"
    using df(2,3) w(2) by blast
  from copy_is_print_then_parse [OF q k, of 3 "''c1''", unfolded if_not_P [OF f]]
  obtain a1 where a1: "map_option ast (map_of (cells ?st2) (toLowerCase ''c2'')) = Some (Some a1)"
    and x1: "?X ''c1'' a1"
    by blast
  have "a1 = ?a" using a1 [unfolded a] by simp
  then have y1: "?X ''c1'' ?a" using x1 by (simp only:)
  note c1 = y1 [rule_format, OF b(2) w(1), unfolded if_not_P [OF r(2)]]
  have v: "map_option fst (eval 3 jsArith ''D3'' ''b2+$a$1'' True ?st2) = Some (Inr [(''d3'', Exact 1)])"
    by code_simp
  have e1: "copy 3 jsArith ''c1'' ''c2'' ?st2 =
       Some (Inl (AppError SYNTAX
          ''cannot copy formula a1+$a$1 to c1: bad row spec 0 with index -1 relative to 0''),
        ?st2 \<lparr> undos := [] \<rparr>)"
    by code_simp
  have e2: "copy 3 jsArith ''a2'' ''c2'' ?st2 =
       Some (Inl (AppError SYNTAX
          ''cannot copy formula a1+$a$1 to a2: bad column spec with index -2 relative to 0''),
        ?st2 \<lparr> undos := [] \<rparr>)"
    by code_simp
  from 1 2 q a' w r d3 c1 v e1 e2 show ?thesis
    by (intro exI [of _ ?st1] exI [of _ ?st2] exI [of _ ?a]) (simp only: simp_thms)
qed

section \<open>Invariants of the cell table\<close>

text \<open>
  Every cell is made by \<^verbatim>\<open>_updateCell\<close> under a key that went through
  \<^verbatim>\<open>cellRefToCellId\<close>, with the key as its id; its dependents are a \<^verbatim>\<open>Set\<close>.  So in a
  table built by the public operations no key has a \<^verbatim>\<open>$\<close>, every cell carries its key,
  keys are not repeated and dependents are not repeated.
\<close>

definition noDollar :: "string \<Rightarrow> bool" where
  "noDollar s = (CHR ''$'' \<notin> set s)"

definition cellOK :: "string \<Rightarrow> 'n cellinfo \<Rightarrow> bool" where
  "cellOK k c = (noDollar k \<and> cid c = k \<and> distinct (dependents c))"

definition tableOK :: "(string \<times> 'n cellinfo) list \<Rightarrow> bool" where
  "tableOK cs = (distinct (map fst cs) \<and> list_all (\<lambda>kc. cellOK (fst kc) (snd kc)) cs)"

definition snapshotOK :: "string \<times> 'n cellinfo option \<Rightarrow> bool" where
  "snapshotOK kv = (noDollar (fst kv) \<and> (case snd kv of None \<Rightarrow> True | Some c \<Rightarrow> cellOK (fst kv) c))"

definition stateOK :: "'n spreadsheet \<Rightarrow> bool" where
  "stateOK st = (tableOK (cells st) \<and> list_all snapshotOK (undos st))"

text \<open>The states that the public operations reach from a new spreadsheet, whatever
  they return or throw.\<close>

inductive reachable :: "'n arith \<Rightarrow> 'n spreadsheet \<Rightarrow> bool" for A :: "'n arith" where
  reach_new: "reachable A (newSpreadsheet s)"
| reach_eval: "reachable A st \<Longrightarrow> eval fuel A i f u st = Some (r, st') \<Longrightarrow> reachable A st'"
| reach_delete: "reachable A st \<Longrightarrow> delete fuel A i st = Some (r, st') \<Longrightarrow> reachable A st'"
| reach_copy: "reachable A st \<Longrightarrow> copy fuel A d s st = Some (r, st') \<Longrightarrow> reachable A st'"
| reach_clear: "reachable A st \<Longrightarrow> clear st = (r', st') \<Longrightarrow> reachable A st'"

lemma set_update_subset: "set (AList.update k v al) \<subseteq> insert (k, v) (set al)"
  by (induction al) auto

lemma tableOK_update:
  assumes "tableOK cs" and "cellOK k c"
  shows "tableOK (AList.update k c cs)"
proof -
  have "distinct (map fst (AList.update k c cs))"
    using assms(1) by (simp add: tableOK_def distinct_update)
  moreover have "list_all (\<lambda>kc. cellOK (fst kc) (snd kc)) (AList.update k c cs)"
    using assms set_update_subset [of k c cs] by (auto simp: tableOK_def list_all_iff)
  ultimately show ?thesis by (simp add: tableOK_def)
qed

lemma set_delete_subset: "set (AList.delete k al) \<subseteq> set al"
  by (auto simp: AList.delete_eq)

lemma tableOK_delete:
  assumes "tableOK cs"
  shows "tableOK (AList.delete k cs)"
proof -
  have "distinct (map fst (AList.delete k cs))"
    using assms by (simp add: tableOK_def distinct_delete)
  moreover have "list_all (\<lambda>kc. cellOK (fst kc) (snd kc)) (AList.delete k cs)"
    using assms set_delete_subset [of k cs] by (auto simp: tableOK_def list_all_iff)
  ultimately show ?thesis by (simp add: tableOK_def)
qed

lemma tableOK_lookup: "tableOK cs \<Longrightarrow> map_of cs k = Some c \<Longrightarrow> cellOK k c"
  by (auto simp: tableOK_def list_all_iff dest!: map_of_SomeD)

lemma tableOK_Nil: "tableOK []"
  by (simp add: tableOK_def)

lemma stateOK_recordUndo:
  assumes "stateOK st" and "noDollar k"
  shows "stateOK (recordUndo k st)"
proof -
  have "snapshotOK (k, map_of (cells st) k)"
    using assms tableOK_lookup [of "cells st" k]
    by (auto simp: snapshotOK_def stateOK_def split: option.splits)
  then show ?thesis using assms(1) by (simp add: recordUndo_def stateOK_def)
qed

lemma cellOK_getOrCreate:
  assumes "stateOK st" and "noDollar k"
  shows "cellOK k (getOrCreate A k st)"
  using assms tableOK_lookup [of "cells st" k]
  by (auto simp: getOrCreate_def stateOK_def newCellInfo_def cellOK_def split: option.splits)

lemma stateOK_updateCell:
  assumes "stateOK st" and "noDollar k" and "\<And>c. cellOK k c \<Longrightarrow> cellOK k (f c)"
  shows "stateOK (snd (updateCell A k f st))"
proof -
  have 1: "stateOK (recordUndo k st)" using assms(1,2) by (rule stateOK_recordUndo)
  have 2: "cellOK k (f (getOrCreate A k (recordUndo k st)))"
    using cellOK_getOrCreate [OF 1 assms(2)] by (rule assms(3))
  show ?thesis
    using 1 tableOK_update [OF _ 2, of "cells (recordUndo k st)"]
    by (simp add: updateCell_def Let_def stateOK_def)
qed

lemma tableOK_undoStep: "tableOK cs \<Longrightarrow> snapshotOK kv \<Longrightarrow> tableOK (undoStep cs kv)"
  by (auto simp: undoStep_def snapshotOK_def tableOK_delete tableOK_update split: option.splits)

lemma tableOK_foldl_undoStep:
  "tableOK cs \<Longrightarrow> list_all snapshotOK us \<Longrightarrow> tableOK (foldl undoStep cs us)"
  by (induction us arbitrary: cs) (simp_all add: tableOK_undoStep)

lemma stateOK_undo: "stateOK st \<Longrightarrow> stateOK (undo st)"
  by (simp add: undo_def stateOK_def tableOK_foldl_undoStep)

lemma lowerChar_dollar: "lowerChar c = CHR ''$'' \<longleftrightarrow> c = CHR ''$''"
proof
  assume l: "lowerChar c = CHR ''$''"
  show "c = CHR ''$''"
  proof (cases "isUpper c")
    case True
    then have "(of_char (lowerChar c) :: nat) = of_char c + 32"
      by (simp add: lowerChar_def isUpper_def)
    then show ?thesis using l True by (simp add: isUpper_def)
  next
    case False
    then show ?thesis using l by (simp add: lowerChar_def)
  qed
next
  assume "c = CHR ''$''"
  then show "lowerChar c = CHR ''$''" by (simp add: lowerChar_def isUpper_def)
qed

lemma noDollar_cellRefToCellId: "noDollar (cellRefToCellId s)"
  by (simp add: noDollar_def cellRefToCellId_def)

lemma dollar_toLowerCase:
  assumes "CHR ''$'' \<in> set s"
  shows "CHR ''$'' \<in> set (toLowerCase s)"
proof -
  have "lowerChar (CHR ''$'') = CHR ''$''" by (simp add: lowerChar_dollar)
  then have "CHR ''$'' \<in> lowerChar ` set s" using assms by (metis image_eqI)
  then show ?thesis by (simp add: toLowerCase_def)
qed

lemma cellOK_setAdd: "cellOK k c \<Longrightarrow> cellOK k (c \<lparr> dependents := setAdd b (dependents c) \<rparr>)"
  by (simp add: cellOK_def setAdd_def)

lemma cellOK_setDelete: "cellOK k c \<Longrightarrow> cellOK k (c \<lparr> dependents := setDelete b (dependents c) \<rparr>)"
  by (simp add: cellOK_def setDelete_def distinct_removeAll)

lemma cellOK_val: "cellOK k c \<Longrightarrow> cellOK k (c \<lparr> val := v \<rparr>)"
  by (simp add: cellOK_def)

lemma cellOK_ast: "cellOK k c \<Longrightarrow> cellOK k (c \<lparr> ast := a \<rparr>)"
  by (simp add: cellOK_def)

lemma refCellId_noDollar: "refCellId A r b = Inr k \<Longrightarrow> noDollar k"
  by (cases "astToString A (Ref r) b") (auto simp: refCellId_def noDollar_cellRefToCellId)

lemma stateOK_evalAst: "stateOK st \<Longrightarrow> stateOK (snd (evalAst A b a st))"
  and stateOK_evalKids: "stateOK st \<Longrightarrow> stateOK (snd (evalKids A b as st))"
proof (induction A b a st and A b as st rule: evalAst_evalKids.induct)
  case (1 A baseCellId v st)
  then show ?case by simp
next
  case (2 A baseCellId r st)
  show ?case
  proof (cases "refCellId A r baseCellId")
    case (Inl e)
    then show ?thesis using "2.prems" by simp
  next
    case (Inr k)
    then show ?thesis
      using stateOK_updateCell [of st k "\<lambda>c. c \<lparr> dependents := setAdd baseCellId (dependents c) \<rparr>" A]
        refCellId_noDollar [OF Inr] cellOK_setAdd "2.prems"
      by (auto simp: split_beta Let_def)
  qed
next
  case (3 A baseCellId fn kids st)
  then show ?case by (auto split: prod.splits sum.splits)
next
  case (4 A baseCellId st)
  then show ?case by simp
next
  case (5 A baseCellId k ks st)
  show ?case
  proof (cases "evalAst A baseCellId k st")
    case (Pair res st1)
    have s1: "stateOK st1" using "5.IH"(1) [OF "5.prems"] Pair by simp
    show ?thesis
    proof (cases res)
      case (Inl e)
      then show ?thesis using s1 Pair by auto
    next
      case (Inr v)
      then show ?thesis using "5.IH"(2) [OF Pair [symmetric] Inr s1] Pair
        by (auto split: prod.splits sum.splits)
    qed
  qed
qed

lemma stateOK_evalAstOpt: "stateOK st \<Longrightarrow> stateOK (snd (evalAstOpt A b a st))"
  by (cases a) (simp_all add: evalAstOpt_def stateOK_evalAst)

lemma stateOK_removeAsDependent: "stateOK st \<Longrightarrow> stateOK (snd (removeAsDependent A b a st))"
  and stateOK_removeKids: "stateOK st \<Longrightarrow> stateOK (snd (removeKids A b as st))"
proof (induction A b a st and A b as st rule: removeAsDependent_removeKids.induct)
  case (1 A baseCellId fn kids st)
  then show ?case by simp
next
  case (2 A baseCellId r st)
  show ?case
  proof (cases "refCellId A r baseCellId")
    case (Inl e)
    then show ?thesis using "2.prems" by simp
  next
    case (Inr k)
    then show ?thesis
      using stateOK_updateCell [of st k "\<lambda>c. c \<lparr> dependents := setDelete baseCellId (dependents c) \<rparr>" A]
        refCellId_noDollar [OF Inr] cellOK_setDelete "2.prems"
      by auto
  qed
next
  case (3 A baseCellId v st)
  then show ?case by simp
next
  case (4 A baseCellId st)
  then show ?case by simp
next
  case (5 A baseCellId k ks st)
  show ?case
  proof (cases "removeAsDependent A baseCellId k st")
    case (Pair res st1)
    have s1: "stateOK st1" using "5.IH"(1) [OF "5.prems"] Pair by simp
    show ?thesis
    proof (cases res)
      case (Inl e)
      then show ?thesis using s1 Pair by auto
    next
      case (Inr u)
      then show ?thesis using "5.IH"(2) [OF Pair [symmetric] Inr s1] Pair by auto
    qed
  qed
qed

text \<open>An invariant of the state that evaluating the AST of a cell and storing its value
  keep is kept by \<open>evalCell\<close>.\<close>

lemma evalCell_evalDependents_invariant:
  assumes step: "\<forall>st k cell res st1. P st \<longrightarrow> map_of (cells st) k = Some cell \<longrightarrow>
      evalAstOpt A (cid cell) (ast cell) st = (res, st1) \<longrightarrow>
      P st1 \<and> (\<forall>v. res = Inr v \<longrightarrow> P (snd (updateCell A (cid cell) (\<lambda>c. c \<lparr> val := v \<rparr>) st1)))"
  shows "(P st \<longrightarrow> evalCell n A k w st = Some (r, st') \<longrightarrow> P st') \<and>
         (P st \<longrightarrow> evalDependents n A k i w vals st = Some (r, st') \<longrightarrow> P st')"
proof (induction n arbitrary: k w st r st' i vals)
  case 0
  show ?case by simp
next
  case (Suc n)
  have c: "P st0 \<Longrightarrow> evalCell n A k' w' st0 = Some (r', st1) \<Longrightarrow> P st1"
    for k' w' st0 r' st1 using Suc by blast
  have d: "P st0 \<Longrightarrow> evalDependents n A k' i' w' v' st0 = Some (r', st1) \<Longrightarrow> P st1"
    for k' w' st0 r' st1 i' v' using Suc by blast
  have 1: "P st'" if p: "P st" and H: "evalCell (Suc n) A k w st = Some (r, st')"
  proof (cases "map_of (cells st) k")
    case None
    then show ?thesis using H p by simp
  next
    case (Some cell)
    obtain res st1 where e: "evalAstOpt A (cid cell) (ast cell) st = (res, st1)"
      by (cases "evalAstOpt A (cid cell) (ast cell) st")
    note s = step [rule_format, OF p Some e]
    show ?thesis
    proof (cases res)
      case (Inl a)
      then show ?thesis using H Some e s by simp
    next
      case (Inr v)
      let ?st2 = "snd (updateCell A (cid cell) (\<lambda>c. c \<lparr> val := v \<rparr>) st1)"
      have p2: "P ?st2" using s Inr by simp
      show ?thesis
      proof (cases "evalDependents n A k 0 (insert (cid cell) w) [(cid cell, v)] ?st2")
        case None
        then show ?thesis using H Some e Inr by (simp add: Let_def)
      next
        case (Some y)
        obtain r2 st3 where y: "y = (r2, st3)" by (cases y)
        have "P st3" using d [OF p2] Some y by simp
        moreover have "st' = st3"
          using H \<open>map_of (cells st) k = Some cell\<close> e Inr Some y
          by (auto simp: Let_def split: sum.splits)
        ultimately show ?thesis by simp
      qed
    qed
  qed
  have 2: "P st'" if p: "P st" and H: "evalDependents (Suc n) A k i w vals st = Some (r, st')"
  proof (cases "i \<ge> length (liveDependents st k) \<or> liveDependents st k ! i \<in> w")
    case True
    then show ?thesis using H p by (auto simp: Let_def split: if_splits)
  next
    case False
    show ?thesis
    proof (cases "evalCell n A (liveDependents st k ! i) w st")
      case None
      then show ?thesis using H False by (simp add: Let_def)
    next
      case (Some y)
      obtain res st1 where y: "y = (res, st1)" by (cases y)
      have p1: "P st1" using c [OF p] Some y by simp
      show ?thesis
      proof (cases res)
        case (Inl a)
        then show ?thesis using H False Some y p1 by (auto simp: Let_def)
      next
        case (Inr q)
        obtain vals1 w1 where q: "q = (vals1, w1)" by (cases q)
        have "evalDependents n A k (Suc i) w1 (objectAssign vals vals1) st1 = Some (r, st')"
          using H False Some y Inr q by (simp add: Let_def)
        from d [OF p1 this] show ?thesis .
      qed
    qed
  qed
  from 1 2 show ?case by blast
qed

lemma evalCell_invariant:
  assumes "\<forall>st k cell res st1. P st \<longrightarrow> map_of (cells st) k = Some cell \<longrightarrow>
      evalAstOpt A (cid cell) (ast cell) st = (res, st1) \<longrightarrow>
      P st1 \<and> (\<forall>v. res = Inr v \<longrightarrow> P (snd (updateCell A (cid cell) (\<lambda>c. c \<lparr> val := v \<rparr>) st1)))"
    and "P st" and "evalCell n A k w st = Some (r, st')"
  shows "P st'"
  using evalCell_evalDependents_invariant [of P A, OF assms(1)] assms(2,3) by blast

lemma stateOK_evalCell:
  assumes "stateOK st" and "evalCell n A k w st = Some (r, st')"
  shows "stateOK st'"
proof (rule evalCell_invariant [where P = stateOK, OF _ assms], intro allI impI)
  fix st0 :: "'a spreadsheet" and k0 cell res st1
  assume p: "stateOK st0" and l: "map_of (cells st0) k0 = Some cell"
    and e: "evalAstOpt A (cid cell) (ast cell) st0 = (res, st1)"
  have ok: "cellOK k0 cell"
    using p l tableOK_lookup [of "cells st0" k0 cell] by (simp add: stateOK_def)
  have s1: "stateOK st1" using stateOK_evalAstOpt [OF p, of A "cid cell" "ast cell"] e by simp
  have "stateOK (snd (updateCell A (cid cell) (\<lambda>c. c \<lparr> val := v \<rparr>) st1))" for v
    using s1 ok by (intro stateOK_updateCell) (simp_all add: cellOK_def)
  then show "stateOK st1 \<and>
        (\<forall>v. res = Inr v \<longrightarrow> stateOK (snd (updateCell A (cid cell) (\<lambda>c. c \<lparr> val := v \<rparr>) st1)))"
    using s1 by simp
qed

lemma stateOK_callStore: "stateOK st \<Longrightarrow> stateOK (snd (callStore c st))"
  by (auto simp: callStore_def stateOK_def split: option.splits list.splits)

lemma stateOK_eval:
  assumes t: "tableOK (cells st)" and e: "eval fuel A b f u st = Some (r, st')"
  shows "stateOK st'"
proof -
  define st0 where "st0 = st \<lparr> undos := [] \<rparr>"
  define cellId where "cellId = cellRefToCellId b"
  have s0: "stateOK st0" using t by (simp add: st0_def stateOK_def)
  have nd: "noDollar cellId" by (simp add: cellId_def noDollar_cellRefToCellId)
  show ?thesis
  proof (cases "parseExpr A f cellId")
    case None
    then show ?thesis using e by (simp add: eval_def Let_def cellId_def)
  next
    case (Some pr)
    show ?thesis
    proof (cases pr)
      case (Inl err)
      then have "st' = undo st0" using e Some by (simp add: eval_def Let_def cellId_def st0_def)
      then show ?thesis using s0 by (simp add: stateOK_undo)
    next
      case (Inr a)
      define st1 where "st1 = snd (updateCell A cellId (\<lambda>c. c \<lparr> ast := Some a \<rparr>) st0)"
      define rm where "rm = (case (case map_of (cells st0) cellId of None \<Rightarrow> None | Some c \<Rightarrow> ast c) of
                      None \<Rightarrow> (Inr (), st1)
                    | Some old \<Rightarrow> removeAsDependent A cellId old st1)"
      obtain rr st2 where rm2: "rm = (rr, st2)" by (cases rm)
      have s1: "stateOK st1"
        unfolding st1_def using s0 nd by (intro stateOK_updateCell) (simp_all add: cellOK_def)
      have "stateOK (snd rm)"
        unfolding rm_def using s1 stateOK_removeAsDependent [OF s1, of A cellId]
        by (simp split: option.splits)
      then have s2: "stateOK st2" using rm2 by simp
      have unf: "eval fuel A b f u st =
         (case rr of Inl e \<Rightarrow> Some (Inl e, undo st2)
          | Inr _ \<Rightarrow> (case evalCell fuel A cellId {} st2 of
                     None \<Rightarrow> None
                   | Some (Inl e, st3) \<Rightarrow> Some (Inl e, undo st3)
                   | Some (Inr (updates, w), st3) \<Rightarrow>
                       if store st3 \<noteq> None \<and> u then
                         (case callStore (UpdateCell cellId f) st3 of
                            (Some e, st4) \<Rightarrow> Some (Inl e, undo st4)
                          | (None, st4) \<Rightarrow> Some (Inr updates, st4))
                       else Some (Inr updates, st3)))"
        using Some Inr rm2 unfolding eval_def Let_def rm_def st1_def cellId_def st0_def
        by (simp split: sum.splits)
      show ?thesis
      proof (cases rr)
        case (Inl err)
        then have "st' = undo st2" using e unf by simp
        then show ?thesis using s2 by (simp add: stateOK_undo)
      next
        case (Inr x)
        show ?thesis
        proof (cases "evalCell fuel A cellId {} st2")
          case None
          then show ?thesis using e unf Inr by simp
        next
          case (Some y)
          obtain res st3 where y: "y = (res, st3)" by (cases y)
          have s3: "stateOK st3" using stateOK_evalCell [OF s2] Some y by simp
          have s4: "stateOK (snd (callStore (UpdateCell cellId f) st3))"
            using s3 by (rule stateOK_callStore)
          show ?thesis
            using e unf Inr Some y s3 s4 stateOK_undo [OF s3] stateOK_undo [OF s4]
            by (auto split: sum.splits prod.splits if_splits option.splits)
        qed
      qed
    qed
  qed
qed

lemma tableOK_eval:
  "tableOK (cells st) \<Longrightarrow> eval fuel A b f u st = Some (r, st') \<Longrightarrow> tableOK (cells st')"
  using stateOK_eval [of st fuel A b f u r st'] by (simp add: stateOK_def)

lemma tableOK_deleteLoop:
  "tableOK (cells st) \<Longrightarrow> deleteLoop fuel A ds res st = Some (r, st') \<Longrightarrow> tableOK (cells st')"
proof (induction ds arbitrary: res st)
  case Nil
  then show ?case by simp
next
  case (Cons d ds)
  show ?case
  proof (cases "map_of (cells st) d")
    case None
    then show ?thesis using Cons.prems by simp
  next
    case (Some c)
    show ?thesis
    proof (cases "formula A c")
      case (Inl e)
      then show ?thesis using Cons.prems Some by simp
    next
      case (Inr f)
      show ?thesis
      proof (cases "eval fuel A d f True st")
        case None
        then show ?thesis using Cons.prems Some Inr by simp
      next
        case (Some y)
        obtain res1 st1 where y: "y = (res1, st1)" by (cases y)
        have t1: "tableOK (cells st1)" using tableOK_eval [OF Cons.prems(1)] Some y by simp
        show ?thesis
        proof (cases res1)
          case (Inl e1)
          then show ?thesis
            using Cons.prems \<open>map_of (cells st) d = Some c\<close> \<open>formula A c = Inr f\<close> Some y t1
            by auto
        next
          case (Inr ups)
          have "deleteLoop fuel A ds (objectAssign res ups) st1 = Some (r, st')"
            using Cons.prems \<open>map_of (cells st) d = Some c\<close> \<open>formula A c = Inr f\<close> Some y Inr
            by simp
          from Cons.IH [OF t1 this] show ?thesis .
        qed
      qed
    qed
  qed
qed

lemma cells_storeDelete: "storeDelete k res st = Some (r, st') \<Longrightarrow> cells st' = cells st"
  by (auto simp: storeDelete_def callStore_def split: option.splits list.splits)

lemma tableOK_delete_op:
  assumes t: "tableOK (cells st)" and d: "delete fuel A i st = Some (r, st')"
  shows "tableOK (cells st')"
proof (cases "map_of (cells st) (toLowerCase i)")
  case None
  then show ?thesis
    using d t cells_storeDelete [of "toLowerCase i" "[]" "st \<lparr> undos := [] \<rparr>" r st']
    by (auto simp: delete_def Let_def tableOK_delete split: if_splits)
next
  case (Some cell)
  define st2 where "st2 = (recordUndo (toLowerCase i) (st \<lparr> undos := [] \<rparr>))
      \<lparr> cells := AList.delete (cid cell) (cells (recordUndo (toLowerCase i) (st \<lparr> undos := [] \<rparr>))) \<rparr>"
  have t2: "tableOK (cells st2)" using t by (simp add: st2_def recordUndo_def tableOK_delete)
  have unf: "delete fuel A i st =
     (case deleteLoop fuel A (dependents cell) [] st2 of
                   None \<Rightarrow> None
                 | Some (Inl e, st3) \<Rightarrow> Some (Inl e, st3)
                 | Some (Inr results, st3) \<Rightarrow> storeDelete (toLowerCase i) results st3)"
    using Some by (simp add: delete_def Let_def st2_def)
  show ?thesis
  proof (cases "deleteLoop fuel A (dependents cell) [] st2")
    case None
    then show ?thesis using d unf by simp
  next
    case (Some y)
    obtain res st3 where y: "y = (res, st3)" by (cases y)
    have t3: "tableOK (cells st3)" using tableOK_deleteLoop [OF t2] Some y by simp
    show ?thesis
      using d unf Some y t3 cells_storeDelete [of "toLowerCase i" _ st3 r st']
      by (auto split: sum.splits)
  qed
qed

lemma tableOK_copy:
  assumes t: "tableOK (cells st)" and c: "copy fuel A d s st = Some (r, st')"
  shows "tableOK (cells st')"
proof -
  have t0: "tableOK (cells (st \<lparr> undos := [] \<rparr>))" using t by simp
  show ?thesis
    using c tableOK_delete_op [OF t0, of fuel A "toLowerCase d" r st']
      tableOK_eval [OF t0, of fuel A "toLowerCase d" _ True r st'] t
    unfolding copy_def Let_def
    by (auto split: option.splits sum.splits if_splits)
qed

lemma tableOK_clear: "tableOK (cells st) \<Longrightarrow> clear st = (r, st') \<Longrightarrow> tableOK (cells st')"
  by (auto simp: clear_def callStore_def tableOK_Nil split: option.splits list.splits)

lemma reachable_tableOK: "reachable A st \<Longrightarrow> tableOK (cells st)"
proof (induction rule: reachable.induct)
  case (reach_new s)
  show ?case by (simp add: newSpreadsheet_def tableOK_Nil)
next
  case (reach_eval st fuel i f u r st')
  then show ?case using tableOK_eval by blast
next
  case (reach_delete st fuel i r st')
  then show ?case using tableOK_delete_op by blast
next
  case (reach_copy st fuel d s r st')
  then show ?case using tableOK_copy by blast
next
  case (reach_clear st r' st')
  then show ?case using tableOK_clear by blast
qed

text \<open>
  C10.  In every state that the public operations reach from a new spreadsheet, and for
  every id that contains a \<^verbatim>\<open>$\<close>, \<^verbatim>\<open>query(id)\<close> is \<^verbatim>\<open>{value: 0, formula: ""}\<close>, whatever
  the cells hold: \<^verbatim>\<open>query\<close> only lowercases the id and no key of the table has a
  \<^verbatim>\<open>$\<close>.  \<^verbatim>\<open>eval\<close> on the same id works on the id without its \<^verbatim>\<open>$\<close> characters.
\<close>

theorem query_keeps_dollar:
  assumes "reachable A st" and "CHR ''$'' \<in> set i"
  shows "query A i st = Inr (numZero A, []) \<and>
         eval fuel A i f u st = eval fuel A (filter (\<lambda>c. c \<noteq> CHR ''$'') i) f u st"
proof -
  have "map_of (cells st) (toLowerCase i) = None"
  proof (cases "map_of (cells st) (toLowerCase i)")
    case None
    then show ?thesis .
  next
    case (Some c)
    then have "cellOK (toLowerCase i) c" using reachable_tableOK [OF assms(1)] tableOK_lookup by blast
    then show ?thesis using dollar_toLowerCase [OF assms(2)] by (simp add: cellOK_def noDollar_def)
  qed
  then have 1: "query A i st = Inr (numZero A, [])" by (simp add: query_def)
  have "cellRefToCellId (filter (\<lambda>c. c \<noteq> CHR ''$'') i) = cellRefToCellId i"
    by (simp add: cellRefToCellId_def toLowerCase_def filter_map comp_def lowerChar_dollar)
  then have 2: "eval fuel A i f u st = eval fuel A (filter (\<lambda>c. c \<noteq> CHR ''$'') i) f u st"
    by (simp add: eval_def)
  from 1 2 show ?thesis by simp
qed

theorem query_keeps_dollar_witness:
  "\<exists>st. reachable jsArith st \<and>
     eval 2 jsArith ''$A$1'' ''7'' True (newSpreadsheet None) = Some (Inr [(''a1'', Exact 7)], st) \<and>
     query jsArith ''a1'' st = Inr (Exact 7, ''7'') \<and>
     query jsArith ''$a1'' st = Inr (Exact 0, []) \<and>
     query jsArith ''A$1'' st = Inr (Exact 0, [])"
proof -
  let ?st = "\<lparr> store = None, storeLog = [],
               cells = [(''a1'', \<lparr> cid = ''a1'', val = Exact 7, ast = Some (Num (Exact 7)),
                                   dependents = [] \<rparr>)],
               undos = [(''a1'', None)] \<rparr>"
  have e: "eval 2 jsArith ''$A$1'' ''7'' True (newSpreadsheet None) =
             Some (Inr [(''a1'', Exact 7)], ?st)"
    by code_simp
  have r: "reachable jsArith ?st"
    using reach_eval [OF reach_new e] .
  have q: "query jsArith ''a1'' ?st = Inr (Exact 7, ''7'')"
    by code_simp
  have d1: "CHR ''$'' \<in> set ''$a1''" and d2: "CHR ''$'' \<in> set ''A$1''"
    by simp_all
  have z: "numZero jsArith = Exact 0"
    by (simp add: jsArith_def)
  from query_keeps_dollar [OF r d1] query_keeps_dollar [OF r d2] e r q z show ?thesis
    by (intro exI [of _ ?st]) simp
qed

section \<open>The dump\<close>

text \<open>
  A lookup in an object used as a map finds an own property, an inherited one, or
  nothing.  \<^verbatim>\<open>_makePrereqs\<close> and \<^verbatim>\<open>dump\<close> test \<^verbatim>\<open>prereqs[d]\<close> for truth and then use it as
  an array: an inherited property passes the test and the use throws.
\<close>

definition notAnArray :: error where
  "notAnArray = TypeError ''not a function, or not iterable''"

text \<open>\<^verbatim>\<open>_makePrereqs\<close>: the non-empty cells, each with an empty list, then for every
  non-empty cell and every dependent of it that has a list, the cell is pushed on it.\<close>

fun pushPrereqs :: "string \<Rightarrow> string list \<Rightarrow> (string \<times> string list) list \<Rightarrow> error + (string \<times> string list) list" where
  "pushPrereqs i [] prereqs = Inr prereqs"
| "pushPrereqs i (d # ds) prereqs =
     (case map_of prereqs d of
        Some ps \<Rightarrow> pushPrereqs i ds (AList.update d (ps @ [i]) prereqs)
      | None \<Rightarrow> if d \<in> set objectProtoNames then Inl notAnArray else pushPrereqs i ds prereqs)"

fun prereqLoop :: "'n cellinfo list \<Rightarrow> (string \<times> string list) list \<Rightarrow> error + (string \<times> string list) list" where
  "prereqLoop [] prereqs = Inr prereqs"
| "prereqLoop (cell # cs) prereqs =
     (case pushPrereqs (cid cell) (dependents cell) prereqs of
        Inl e \<Rightarrow> Inl e
      | Inr prereqs1 \<Rightarrow> prereqLoop cs prereqs1)"

definition makePrereqs :: "(string \<times> 'n cellinfo) list \<Rightarrow> error + (string \<times> string list) list" where
  "makePrereqs cs =
     (let prereqCells = filter (\<lambda>cell. \<not> isEmpty cell) (map snd cs);
          prereqs = foldl (\<lambda>m c. AList.update (cid c) [] m) [] prereqCells
      in prereqLoop prereqCells prereqs)"

text \<open>
  The body of \<^verbatim>\<open>dump\<close>.  \<open>readyDependents\<close> is the loop over the dependents of a cell,
  \<open>dumpLayer\<close> the loop over \<^verbatim>\<open>cellIds0\<close>, \<open>dumpLoop\<close> the \<^verbatim>\<open>while\<close> loop, which may not
  end (\<open>None\<close>).  \<^verbatim>\<open>sort()\<close> orders strings by their character codes, as \<open>sort\<close> does.
\<close>

fun readyDependents :: "(string \<times> string list) list \<Rightarrow> string set \<Rightarrow> string list \<Rightarrow> string list \<Rightarrow> error + string list" where
  "readyDependents prereqs doneIds [] cellIds1 = Inr cellIds1"
| "readyDependents prereqs doneIds (dependentId # ds) cellIds1 =
     (case map_of prereqs dependentId of
        Some ps \<Rightarrow>
          readyDependents prereqs doneIds ds
            (if list_all (\<lambda>prereq. prereq \<in> doneIds) ps then cellIds1 @ [dependentId] else cellIds1)
      | None \<Rightarrow>
          if dependentId \<in> set objectProtoNames then Inl notAnArray
          else readyDependents prereqs doneIds ds cellIds1)"

fun dumpLayer :: "(string \<times> 'n cellinfo) list \<Rightarrow> (string \<times> string list) list \<Rightarrow> string list
    \<Rightarrow> string list \<Rightarrow> string set \<Rightarrow> string list \<Rightarrow> error + string list \<times> string set \<times> string list" where
  "dumpLayer cs prereqs [] sortedIds doneIds cellIds1 = Inr (sortedIds, doneIds, cellIds1)"
| "dumpLayer cs prereqs (cellId # rest) sortedIds doneIds cellIds1 =
     (case map_of cs cellId of
        None \<Rightarrow> Inl undefinedCell
      | Some cell \<Rightarrow>
          (case readyDependents prereqs (insert cellId doneIds) (dependents cell) cellIds1 of
             Inl e \<Rightarrow> Inl e
           | Inr cellIds2 \<Rightarrow>
               dumpLayer cs prereqs rest (sortedIds @ [cellId]) (insert cellId doneIds) cellIds2))"

partial_function (option) dumpLoop ::
  "(string \<times> 'n cellinfo) list \<Rightarrow> (string \<times> string list) list \<Rightarrow> nat \<Rightarrow> string list
    \<Rightarrow> string list \<Rightarrow> string set \<Rightarrow> (error + string list) option" where
  "dumpLoop cs prereqs nCells cellIds0 sortedIds doneIds =
     (if length sortedIds < nCells then
        (case dumpLayer cs prereqs cellIds0 sortedIds doneIds [] of
           Inl e \<Rightarrow> Some (Inl e)
         | Inr (sortedIds1, doneIds1, cellIds1) \<Rightarrow>
             dumpLoop cs prereqs nCells (sort cellIds1) sortedIds1 doneIds1)
      else Some (Inr sortedIds))"

declare dumpLoop.simps [code]

definition dumpIds :: "(string \<times> 'n cellinfo) list \<Rightarrow> (error + string list) option" where
  "dumpIds cs =
     (case makePrereqs cs of
        Inl e \<Rightarrow> Some (Inl e)
      | Inr prereqs \<Rightarrow>
          (let allCellIds = map fst prereqs;
               nCells = length allCellIds;
               cellIds0 = sort (filter (\<lambda>i. map_of prereqs i = Some []) allCellIds)
           in dumpLoop cs prereqs nCells cellIds0 [] {}))"

text \<open>The final \<^verbatim>\<open>map\<close>: each id with the formula of its cell.\<close>

fun dumpFormulas :: "'n arith \<Rightarrow> (string \<times> 'n cellinfo) list \<Rightarrow> string list \<Rightarrow> error + (string \<times> string) list" where
  "dumpFormulas A cs [] = Inr []"
| "dumpFormulas A cs (i # ids) =
     (case map_of cs i of
        None \<Rightarrow> Inl undefinedCell
      | Some cell \<Rightarrow>
          (case formula A cell of
             Inl e \<Rightarrow> Inl e
           | Inr f \<Rightarrow> map_sum id (Cons (i, f)) (dumpFormulas A cs ids)))"

definition dump :: "'n arith \<Rightarrow> 'n spreadsheet \<Rightarrow> (error + (string \<times> string) list) option" where
  "dump A st =
     (case dumpIds (cells st) of
        None \<Rightarrow> None
      | Some (Inl e) \<Rightarrow> Some (Inl e)
      | Some (Inr sortedIds) \<Rightarrow> Some (dumpFormulas A (cells st) sortedIds))"

section \<open>What the dump returns\<close>

text \<open>The ids of the non-empty cells, and the prerequisites of a cell: the non-empty
  cells that have it among their dependents.\<close>

definition nonEmptyIds :: "(string \<times> 'n cellinfo) list \<Rightarrow> string list" where
  "nonEmptyIds cs = map fst (filter (\<lambda>kc. \<not> isEmpty (snd kc)) cs)"

definition prereqsOf :: "(string \<times> 'n cellinfo) list \<Rightarrow> string \<Rightarrow> string list" where
  "prereqsOf cs k = map fst (filter (\<lambda>kc. \<not> isEmpty (snd kc) \<and> k \<in> set (dependents (snd kc))) cs)"

text \<open>The invariant of \<open>pushPrereqs\<close> and \<open>prereqLoop\<close>: the keys stay, and the list of a
  key \<open>k\<close> grows by the cells pushed.\<close>

lemma map_fst_update_same:
  "map_of m d = Some ps \<Longrightarrow> map fst (AList.update d qs m) = map fst m"
  by (induction m) (auto split: if_splits)

lemma pushPrereqs_ok:
  assumes "\<forall>d \<in> set ds. d \<notin> set objectProtoNames"
  shows "\<exists>m'. pushPrereqs i ds m = Inr m' \<and> map fst m' = map fst m \<and>
           (\<forall>k. map_option set (map_of m' k) =
                 map_option (\<lambda>S. if k \<in> set ds then insert i S else S) (map_option set (map_of m k)))"
  using assms
proof (induction ds arbitrary: m)
  case Nil
  then show ?case by (simp add: option.map_ident)
next
  case (Cons d ds)
  show ?case
  proof (cases "map_of m d")
    case None
    obtain m' where m': "pushPrereqs i ds m = Inr m'" "map fst m' = map fst m"
      "\<And>k. map_option set (map_of m' k) =
             map_option (\<lambda>S. if k \<in> set ds then insert i S else S) (map_option set (map_of m k))"
      using Cons.IH [of m] Cons.prems by auto
    have "pushPrereqs i (d # ds) m = Inr m'" using None Cons.prems m'(1) by simp
    moreover have "map_option set (map_of m' k) =
        map_option (\<lambda>S. if k \<in> set (d # ds) then insert i S else S) (map_option set (map_of m k))" for k
      using m'(3) [of k] None by (cases "k = d") auto
    ultimately show ?thesis using m'(2) by blast
  next
    case (Some ps0)
    let ?m1 = "AList.update d (ps0 @ [i]) m"
    obtain m' where m': "pushPrereqs i ds ?m1 = Inr m'" "map fst m' = map fst ?m1"
      "\<And>k. map_option set (map_of m' k) =
             map_option (\<lambda>S. if k \<in> set ds then insert i S else S) (map_option set (map_of ?m1 k))"
      using Cons.IH [of ?m1] Cons.prems by auto
    have 1: "pushPrereqs i (d # ds) m = Inr m'" using Some m'(1) by simp
    have 2: "map fst m' = map fst m" using m'(2) map_fst_update_same [OF Some] by simp
    have 3: "map_option set (map_of m' k) =
        map_option (\<lambda>S. if k \<in> set (d # ds) then insert i S else S) (map_option set (map_of m k))" for k
      using m'(3) [of k] Some by (cases "k = d") (auto simp: update_conv')
    from 1 2 3 show ?thesis by blast
  qed
qed

lemma prereqLoop_ok:
  assumes "\<forall>c \<in> set cells0. \<forall>d \<in> set (dependents c). d \<notin> set objectProtoNames"
  shows "\<exists>m'. prereqLoop cells0 m = Inr m' \<and> map fst m' = map fst m \<and>
           (\<forall>k. map_option set (map_of m' k) =
                 map_option (\<lambda>S. S \<union> {cid c | c. c \<in> set cells0 \<and> k \<in> set (dependents c)})
                   (map_option set (map_of m k)))"
  using assms
proof (induction cells0 arbitrary: m)
  case Nil
  then show ?case by (simp add: option.map_ident)
next
  case (Cons c cells0)
  obtain m1 where m1: "pushPrereqs (cid c) (dependents c) m = Inr m1" "map fst m1 = map fst m"
    "\<And>k. map_option set (map_of m1 k) =
           map_option (\<lambda>S. if k \<in> set (dependents c) then insert (cid c) S else S)
             (map_option set (map_of m k))"
    using pushPrereqs_ok [of "dependents c" "cid c" m] Cons.prems by auto
  obtain m' where m': "prereqLoop cells0 m1 = Inr m'" "map fst m' = map fst m1"
    "\<And>k. map_option set (map_of m' k) =
           map_option (\<lambda>S. S \<union> {cid c | c. c \<in> set cells0 \<and> k \<in> set (dependents c)})
             (map_option set (map_of m1 k))"
    using Cons.IH [of m1] Cons.prems by auto
  have 1: "prereqLoop (c # cells0) m = Inr m'" using m1(1) m'(1) by simp
  have 2: "map fst m' = map fst m" using m1(2) m'(2) by simp
  have 3: "map_option set (map_of m' k) =
           map_option (\<lambda>S. S \<union> {cid c' | c'. c' \<in> set (c # cells0) \<and> k \<in> set (dependents c')})
             (map_option set (map_of m k))" for k
  proof (cases "map_of m k")
    case None
    then show ?thesis using m'(3) [of k] m1(3) [of k] by simp
  next
    case (Some ps)
    have "{cid c' | c'. c' \<in> set (c # cells0) \<and> k \<in> set (dependents c')} =
          (if k \<in> set (dependents c) then {cid c} else {}) \<union>
          {cid c' | c'. c' \<in> set cells0 \<and> k \<in> set (dependents c')}"
      by auto
    then show ?thesis using m'(3) [of k] m1(3) [of k] Some by (auto simp: option.map_comp)
  qed
  from 1 2 3 show ?case by blast
qed


text \<open>Dependents that are not names of inherited properties: the dependents of a cell
  are ids of cells with a formula, which the cell reference pattern matched.\<close>

definition depsOK :: "(string \<times> 'n cellinfo) list \<Rightarrow> bool" where
  "depsOK cs = list_all (\<lambda>kc. list_all (\<lambda>d. d \<notin> set objectProtoNames) (dependents (snd kc))) cs"

lemma foldl_update_fresh:
  "distinct (map cid cs0) \<Longrightarrow> set (map cid cs0) \<inter> fst ` set m = {} \<Longrightarrow>
   foldl (\<lambda>m c. AList.update (cid c) [] m) m cs0 = m @ map (\<lambda>c. (cid c, [])) cs0"
proof (induction cs0 arbitrary: m)
  case Nil
  then show ?case by simp
next
  case (Cons c cs0)
  have u: "AList.update (cid c) [] m = m @ [(cid c, [])]"
    using Cons.prems(2) by (induction m) auto
  have "set (map cid cs0) \<inter> fst ` set (m @ [(cid c, [])]) = {}"
    using Cons.prems by auto
  then show ?case using Cons.IH [of "m @ [(cid c, [])]"] Cons.prems(1) u by simp
qed

lemma tableOK_cid: "tableOK cs \<Longrightarrow> kc \<in> set cs \<Longrightarrow> cid (snd kc) = fst kc"
  by (auto simp: tableOK_def list_all_iff cellOK_def)

lemma tableOK_map_cid: "tableOK cs \<Longrightarrow> map (cid \<circ> snd) cs = map fst cs"
  by (auto simp: tableOK_cid)

lemma map_cid_filter:
  assumes "tableOK cs"
  shows "map cid (filter P (map snd cs)) = map fst (filter (P \<circ> snd) cs)"
proof -
  have "map cid (filter P (map snd cs)) = map (cid \<circ> snd) (filter (P \<circ> snd) cs)"
    by (simp add: filter_map)
  also have "\<dots> = map fst (filter (P \<circ> snd) cs)"
    using assms by (auto simp: tableOK_cid)
  finally show ?thesis .
qed

lemma nonEmptyIds_alt:
  "tableOK cs \<Longrightarrow> map cid (filter (\<lambda>c. \<not> isEmpty c) (map snd cs)) = nonEmptyIds cs"
  using map_cid_filter [of cs "\<lambda>c. \<not> isEmpty c"] by (simp add: nonEmptyIds_def comp_def)

lemma distinct_nonEmptyIds: "tableOK cs \<Longrightarrow> distinct (nonEmptyIds cs)"
  by (simp add: nonEmptyIds_def tableOK_def distinct_map_filter)

lemma nonEmptyIds_iff:
  assumes "tableOK cs"
  shows "k \<in> set (nonEmptyIds cs) \<longleftrightarrow> (\<exists>c. map_of cs k = Some c \<and> \<not> isEmpty c)"
proof
  assume "k \<in> set (nonEmptyIds cs)"
  then obtain c where "(k, c) \<in> set cs" "\<not> isEmpty c" by (auto simp: nonEmptyIds_def)
  then show "\<exists>c. map_of cs k = Some c \<and> \<not> isEmpty c"
    using assms by (auto simp: tableOK_def)
next
  assume "\<exists>c. map_of cs k = Some c \<and> \<not> isEmpty c"
  then obtain c where "map_of cs k = Some c" "\<not> isEmpty c" by blast
  then show "k \<in> set (nonEmptyIds cs)"
    by (force simp: nonEmptyIds_def dest: map_of_SomeD)
qed

lemma prereqsOf_iff:
  assumes "tableOK cs"
  shows "p \<in> set (prereqsOf cs k) \<longleftrightarrow>
         (\<exists>c. map_of cs p = Some c \<and> \<not> isEmpty c \<and> k \<in> set (dependents c))"
proof
  assume "p \<in> set (prereqsOf cs k)"
  then obtain c where "(p, c) \<in> set cs" "\<not> isEmpty c" "k \<in> set (dependents c)"
    by (auto simp: prereqsOf_def)
  then show "\<exists>c. map_of cs p = Some c \<and> \<not> isEmpty c \<and> k \<in> set (dependents c)"
    using assms by (auto simp: tableOK_def)
next
  assume "\<exists>c. map_of cs p = Some c \<and> \<not> isEmpty c \<and> k \<in> set (dependents c)"
  then obtain c where "map_of cs p = Some c" "\<not> isEmpty c" "k \<in> set (dependents c)" by blast
  then show "p \<in> set (prereqsOf cs k)"
    by (force simp: prereqsOf_def dest: map_of_SomeD)
qed

lemma prereqsOf_subset: "set (prereqsOf cs k) \<subseteq> set (nonEmptyIds cs)"
  by (auto simp: prereqsOf_def nonEmptyIds_def)

text \<open>What \<open>makePrereqs\<close> returns: a list (up to order and repetition, the prerequisites)
  for every non-empty cell, in the order of the table.\<close>

definition prereqsFor :: "(string \<times> 'n cellinfo) list \<Rightarrow> (string \<times> string list) list \<Rightarrow> bool" where
  "prereqsFor cs m =
     (map fst m = nonEmptyIds cs \<and>
      (\<forall>k. map_option set (map_of m k) =
            (if k \<in> set (nonEmptyIds cs) then Some (set (prereqsOf cs k)) else None)))"

lemma map_of_empty_lists:
  "map_of (map (\<lambda>c. (cid c, [])) xs) k = (if k \<in> set (map cid xs) then Some [] else None)"
  by (induction xs) auto

lemma makePrereqs_ok:
  assumes t: "tableOK cs" and d: "depsOK cs"
  shows "\<exists>m. makePrereqs cs = Inr m \<and> prereqsFor cs m"
proof -
  let ?pc = "filter (\<lambda>c. \<not> isEmpty c) (map snd cs)"
  let ?init = "foldl (\<lambda>m c. AList.update (cid c) ([] :: string list) m) [] ?pc"
  have ids: "map cid ?pc = nonEmptyIds cs" using t by (rule nonEmptyIds_alt)
  have "distinct (map cid ?pc)" using ids distinct_nonEmptyIds [OF t] by simp
  then have init: "?init = map (\<lambda>c. (cid c, [])) ?pc"
    using foldl_update_fresh [of ?pc "[]"] by simp
  have kinit: "map fst ?init = nonEmptyIds cs"
    using ids by (simp add: init comp_def)
  have minit: "map_of ?init k = (if k \<in> set (nonEmptyIds cs) then Some [] else None)" for k
    by (simp only: init map_of_empty_lists ids)
  have nop: "\<forall>c \<in> set ?pc. \<forall>d \<in> set (dependents c). d \<notin> set objectProtoNames"
    using d by (auto simp: depsOK_def list_all_iff)
  from prereqLoop_ok [OF nop, of ?init]
  obtain m where mm: "prereqLoop ?pc ?init = Inr m \<and> map fst m = map fst ?init \<and>
    (\<forall>k. map_option set (map_of m k) =
           map_option (\<lambda>S. S \<union> {cid c | c. c \<in> set ?pc \<and> k \<in> set (dependents c)})
             (map_option set (map_of ?init k)))" ..
  note m = mm [THEN conjunct1] mm [THEN conjunct2, THEN conjunct1]
    mm [THEN conjunct2, THEN conjunct2]
  have sets: "{cid c | c. c \<in> set ?pc \<and> k \<in> set (dependents c)} = set (prereqsOf cs k)" for k
  proof -
    have "{cid c | c. c \<in> set ?pc \<and> k \<in> set (dependents c)} =
          set (map cid (filter (\<lambda>c. \<not> isEmpty c \<and> k \<in> set (dependents c)) (map snd cs)))"
      by auto
    also have "\<dots> = set (prereqsOf cs k)"
      using map_cid_filter [OF t, of "\<lambda>c. \<not> isEmpty c \<and> k \<in> set (dependents c)"]
      by (simp add: prereqsOf_def comp_def)
    finally show ?thesis .
  qed
  have "makePrereqs cs = Inr m" using m(1) by (simp add: makePrereqs_def Let_def)
  moreover have "prereqsFor cs m"
    using m(2) m(3) [rule_format] kinit minit sets by (simp add: prereqsFor_def)
  ultimately show ?thesis by blast
qed


text \<open>One layer.  A dependent is ready when it is a non-empty cell whose prerequisites are
  all done; \<open>news\<close> lists what a pass over the cells \<open>xs\<close> pushes on \<^verbatim>\<open>cellIds1\<close>.\<close>

definition depsOf :: "(string \<times> 'n cellinfo) list \<Rightarrow> string \<Rightarrow> string list" where
  "depsOf cs x = (case map_of cs x of None \<Rightarrow> [] | Some c \<Rightarrow> dependents c)"

definition ready :: "(string \<times> 'n cellinfo) list \<Rightarrow> string set \<Rightarrow> string \<Rightarrow> bool" where
  "ready cs doneIds d = (d \<in> set (nonEmptyIds cs) \<and> set (prereqsOf cs d) \<subseteq> doneIds)"

fun news :: "(string \<times> 'n cellinfo) list \<Rightarrow> string list \<Rightarrow> string set \<Rightarrow> string list" where
  "news cs [] doneIds = []"
| "news cs (x # xs) doneIds =
     filter (ready cs (insert x doneIds)) (depsOf cs x) @ news cs xs (insert x doneIds)"

lemma readyDependents_ok:
  assumes "prereqsFor cs m" and "\<forall>d \<in> set ds. d \<notin> set objectProtoNames"
  shows "readyDependents m doneIds ds acc = Inr (acc @ filter (ready cs doneIds) ds)"
  using assms(2)
proof (induction ds arbitrary: acc)
  case Nil
  then show ?case by simp
next
  case (Cons d ds)
  have v: "map_option set (map_of m d) =
        (if d \<in> set (nonEmptyIds cs) then Some (set (prereqsOf cs d)) else None)"
    using assms(1) by (simp add: prereqsFor_def)
  show ?case
  proof (cases "map_of m d")
    case None
    then have "\<not> ready cs doneIds d" using v by (auto simp: ready_def split: if_splits)
    then show ?thesis using None Cons by simp
  next
    case (Some ps)
    then have "d \<in> set (nonEmptyIds cs)" "set ps = set (prereqsOf cs d)"
      using v by (auto split: if_splits)
    then have "ready cs doneIds d \<longleftrightarrow> list_all (\<lambda>p. p \<in> doneIds) ps"
      by (auto simp: ready_def list_all_iff)
    then show ?thesis using Some Cons by simp
  qed
qed

lemma depsOK_depsOf:
  assumes "depsOK cs" and "d \<in> set (depsOf cs x)"
  shows "d \<notin> set objectProtoNames"
proof (cases "map_of cs x")
  case None
  then show ?thesis using assms(2) by (simp add: depsOf_def)
next
  case (Some c)
  then have "(x, c) \<in> set cs" by (rule map_of_SomeD)
  then have "\<forall>d \<in> set (dependents c). d \<notin> set objectProtoNames"
    using assms(1) unfolding depsOK_def list_all_iff by fastforce
  then show ?thesis using assms(2) Some by (simp add: depsOf_def)
qed

lemma dumpLayer_ok:
  assumes "prereqsFor cs m" and "tableOK cs" and "depsOK cs"
    and "set xs \<subseteq> set (nonEmptyIds cs)"
  shows "dumpLayer cs m xs sortedIds doneIds acc =
           Inr (sortedIds @ xs, doneIds \<union> set xs, acc @ news cs xs doneIds)"
  using assms(4)
proof (induction xs arbitrary: sortedIds doneIds acc)
  case Nil
  then show ?case by simp
next
  case (Cons x xs)
  obtain c where c: "map_of cs x = Some c"
    using Cons.prems nonEmptyIds_iff [OF assms(2), of x] by auto
  have d: "depsOf cs x = dependents c" using c by (simp add: depsOf_def)
  have "\<forall>d \<in> set (dependents c). d \<notin> set objectProtoNames"
    using depsOK_depsOf [OF assms(3), of _ x] d by simp
  then have r: "readyDependents m (insert x doneIds) (dependents c) acc =
      Inr (acc @ filter (ready cs (insert x doneIds)) (dependents c))"
    by (rule readyDependents_ok [OF assms(1)])
  show ?case using c r d Cons by simp
qed

lemma distinct_depsOf: "tableOK cs \<Longrightarrow> distinct (depsOf cs x)"
  using tableOK_lookup [of cs x] by (auto simp: depsOf_def cellOK_def split: option.splits)

lemma prereq_depsOf:
  assumes "tableOK cs"
  shows "x \<in> set (prereqsOf cs d) \<longleftrightarrow> x \<in> set (nonEmptyIds cs) \<and> d \<in> set (depsOf cs x)"
proof (cases "map_of cs x")
  case None
  then show ?thesis
    using prereqsOf_iff [OF assms, of x d] nonEmptyIds_iff [OF assms, of x] by simp
next
  case (Some c)
  then show ?thesis
    using prereqsOf_iff [OF assms, of x d] nonEmptyIds_iff [OF assms, of x]
    by (simp add: depsOf_def)
qed

lemma news_props:
  assumes t: "tableOK cs"
  shows "set xs \<subseteq> set (nonEmptyIds cs) \<Longrightarrow> distinct xs \<Longrightarrow> set xs \<inter> doneIds = {} \<Longrightarrow>
     set (news cs xs doneIds) =
       {d \<in> set (nonEmptyIds cs). set (prereqsOf cs d) \<subseteq> doneIds \<union> set xs \<and>
          set (prereqsOf cs d) \<inter> set xs \<noteq> {}} \<and>
     distinct (news cs xs doneIds)"
proof (induction xs arbitrary: doneIds)
  case Nil
  then show ?case by simp
next
  case (Cons x xs)
  let ?P = "\<lambda>d. set (prereqsOf cs d)"
  let ?NE = "set (nonEmptyIds cs)"
  let ?F = "filter (ready cs (insert x doneIds)) (depsOf cs x)"
  let ?R = "news cs xs (insert x doneIds)"
  have xNE: "x \<in> ?NE" and xd: "x \<notin> doneIds" and xxs: "x \<notin> set xs" using Cons.prems by auto
  have IH: "set ?R = {d \<in> ?NE. ?P d \<subseteq> insert x doneIds \<union> set xs \<and> ?P d \<inter> set xs \<noteq> {}}"
    "distinct ?R"
    using Cons.IH [of "insert x doneIds"] Cons.prems by auto
  have F: "set ?F = {d \<in> ?NE. ?P d \<subseteq> insert x doneIds \<and> x \<in> ?P d}"
    using prereq_depsOf [OF t, of x] xNE by (auto simp: ready_def)
  have 1: "set (news cs (x # xs) doneIds) =
       {d \<in> ?NE. ?P d \<subseteq> doneIds \<union> set (x # xs) \<and> ?P d \<inter> set (x # xs) \<noteq> {}}"
  proof (rule set_eqI)
    fix d
    show "d \<in> set (news cs (x # xs) doneIds) \<longleftrightarrow>
          d \<in> {d \<in> ?NE. ?P d \<subseteq> doneIds \<union> set (x # xs) \<and> ?P d \<inter> set (x # xs) \<noteq> {}}"
    proof (cases "?P d \<inter> set xs = {}")
      case True
      then have "?P d \<subseteq> doneIds \<union> set (x # xs) \<longleftrightarrow> ?P d \<subseteq> insert x doneIds" by auto
      moreover have "?P d \<inter> set (x # xs) \<noteq> {} \<longleftrightarrow> x \<in> ?P d" using True by auto
      ultimately show ?thesis using IH(1) F True by auto
    next
      case False
      then have "\<not> ?P d \<subseteq> insert x doneIds" using Cons.prems xxs by auto
      moreover have "?P d \<subseteq> doneIds \<union> set (x # xs) \<longleftrightarrow> ?P d \<subseteq> insert x doneIds \<union> set xs"
        by auto
      ultimately show ?thesis using IH(1) F False by auto
    qed
  qed
  have "set ?F \<inter> set ?R = {}"
  proof -
    have False if a: "d \<in> set ?F" and b: "d \<in> set ?R" for d
    proof -
      have "?P d \<subseteq> insert x doneIds" using a F by auto
      moreover have "?P d \<inter> set xs \<noteq> {}" using b IH(1) by auto
      ultimately show False using Cons.prems xxs by auto
    qed
    then show ?thesis by auto
  qed
  then have 2: "distinct (news cs (x # xs) doneIds)"
    using IH(2) distinct_depsOf [OF t, of x] by simp
  from 1 2 show ?case by blast
qed

text \<open>Depth.  A function \<open>dp\<close> is the depth function of a table when it is 0 on the
  non-empty cells without prerequisites and one more than the greatest depth of a
  prerequisite on the others.  Such a function exists exactly when the prerequisites
  of the non-empty cells do not form a cycle.\<close>

definition isDepth :: "(string \<times> 'n cellinfo) list \<Rightarrow> (string \<Rightarrow> nat) \<Rightarrow> bool" where
  "isDepth cs dp =
     list_all (\<lambda>k. dp k = (if prereqsOf cs k = [] then 0
                            else Suc (Max (set (map dp (prereqsOf cs k))))))
       (nonEmptyIds cs)"

definition layer :: "(string \<times> 'n cellinfo) list \<Rightarrow> (string \<Rightarrow> nat) \<Rightarrow> nat \<Rightarrow> string set" where
  "layer cs dp n = {k \<in> set (nonEmptyIds cs). dp k = n}"

definition below :: "(string \<times> 'n cellinfo) list \<Rightarrow> (string \<Rightarrow> nat) \<Rightarrow> nat \<Rightarrow> string set" where
  "below cs dp n = {k \<in> set (nonEmptyIds cs). dp k < n}"

lemma finite_layer: "finite (layer cs dp n)"
  by (simp add: layer_def)

lemma below_Suc: "below cs dp (Suc n) = below cs dp n \<union> layer cs dp n"
  by (auto simp: below_def layer_def)

lemma below_layer_disjoint: "layer cs dp n \<inter> below cs dp n = {}"
  by (auto simp: below_def layer_def)

lemma layer_rest:
  "layer cs dp n \<union> (set (nonEmptyIds cs) - below cs dp (Suc n)) =
   set (nonEmptyIds cs) - below cs dp n"
  by (auto simp: below_def layer_def)

lemma layer_le:
  "x \<in> layer cs dp n \<Longrightarrow> y \<in> set (nonEmptyIds cs) - below cs dp (Suc n) \<Longrightarrow>
   (dp x, x) \<le> (dp y, y)"
  by (auto simp: below_def layer_def less_eq_prod_def)

lemma isDepthD:
  "isDepth cs dp \<Longrightarrow> k \<in> set (nonEmptyIds cs) \<Longrightarrow>
   dp k = (if prereqsOf cs k = [] then 0 else Suc (Max (set (map dp (prereqsOf cs k)))))"
  by (simp add: isDepth_def list_all_iff)

lemma depth_zero:
  "isDepth cs dp \<Longrightarrow> k \<in> set (nonEmptyIds cs) \<Longrightarrow> dp k = 0 \<longleftrightarrow> prereqsOf cs k = []"
  by (simp add: isDepthD)

lemma depth_Suc:
  assumes "isDepth cs dp" and "k \<in> set (nonEmptyIds cs)"
  shows "set (prereqsOf cs k) \<subseteq> below cs dp n \<union> layer cs dp n \<and>
         set (prereqsOf cs k) \<inter> layer cs dp n \<noteq> {} \<longleftrightarrow> dp k = Suc n"
proof (cases "prereqsOf cs k = []")
  case True
  then show ?thesis using isDepthD [OF assms] by simp
next
  case False
  let ?P = "set (prereqsOf cs k)"
  let ?S = "dp ` ?P"
  have k: "dp k = Suc (Max ?S)" using isDepthD [OF assms] False by simp
  have fin: "finite ?S" and ne: "?S \<noteq> {}" using False by simp_all
  have sub: "?P \<subseteq> set (nonEmptyIds cs)" by (rule prereqsOf_subset)
  show ?thesis
  proof
    assume a: "?P \<subseteq> below cs dp n \<union> layer cs dp n \<and> ?P \<inter> layer cs dp n \<noteq> {}"
    then have "\<forall>x \<in> ?S. x \<le> n" by (auto simp: below_def layer_def)
    then have 1: "Max ?S \<le> n" using fin ne by simp
    obtain p where "p \<in> ?P" "dp p = n" using a by (auto simp: layer_def)
    then have "n \<in> ?S" by auto
    then have "n \<le> Max ?S" using fin by (rule_tac Max_ge)
    then show "dp k = Suc n" using 1 k by simp
  next
    assume "dp k = Suc n"
    then have mx: "Max ?S = n" using k by simp
    have "\<forall>x \<in> ?S. x \<le> n" using Max_ge [OF fin] mx by auto
    then have 1: "?P \<subseteq> below cs dp n \<union> layer cs dp n"
      using sub by (auto simp: below_def layer_def le_less)
    have "n \<in> ?S" using Max_in [OF fin ne] mx by simp
    then have 2: "?P \<inter> layer cs dp n \<noteq> {}" using sub by (auto simp: layer_def)
    from 1 2 show "?P \<subseteq> below cs dp n \<union> layer cs dp n \<and> ?P \<inter> layer cs dp n \<noteq> {}" ..
  qed
qed

lemma sort_distinct: "distinct xs \<Longrightarrow> sort xs = sorted_list_of_set (set xs)"
  by (simp add: sorted_list_of_set_sort_remdups distinct_remdups_id)

lemma sorted_layer:
  assumes "sorted xs" and "\<forall>k \<in> set xs. dp k = n"
  shows "sorted (map (\<lambda>k. (dp k, k)) xs)"
proof -
  have "sorted_wrt (\<lambda>x y. (dp x, x) \<le> (dp y, y)) xs"
    using assms(1)
  proof (rule sorted_wrt_mono_rel [rotated])
    fix x y assume "x \<in> set xs" "y \<in> set xs" "x \<le> y"
    then show "(dp x, x) \<le> (dp y, y)" using assms(2) by (simp add: less_eq_prod_def)
  qed
  then show ?thesis by (simp add: sorted_map)
qed

text \<open>The loop: entered with the cells below depth \<open>n\<close> emitted and layer \<open>n\<close> sorted in
  \<^verbatim>\<open>cellIds0\<close>, it returns, and appends the remaining layers in order.\<close>

lemma dumpLoop_layers:
  assumes t: "tableOK cs" and d: "depsOK cs" and m: "prereqsFor cs m" and dp: "isDepth cs dp"
    and B: "\<forall>k \<in> set (nonEmptyIds cs). dp k < B"
  shows "B - n = j \<Longrightarrow> distinct sortedIds \<Longrightarrow> set sortedIds = below cs dp n \<Longrightarrow>
     \<exists>ids. dumpLoop cs m (length (nonEmptyIds cs)) (sorted_list_of_set (layer cs dp n))
              sortedIds (below cs dp n) = Some (Inr (sortedIds @ ids)) \<and>
           distinct ids \<and> set ids = set (nonEmptyIds cs) - below cs dp n \<and>
           sorted (map (\<lambda>k. (dp k, k)) ids)"
proof (induction j arbitrary: n sortedIds rule: less_induct)
  case (less j)
  let ?NE = "set (nonEmptyIds cs)"
  let ?xs = "sorted_list_of_set (layer cs dp n)"
  have dNE: "distinct (nonEmptyIds cs)" by (rule distinct_nonEmptyIds [OF t])
  have sub: "below cs dp n \<subseteq> ?NE" by (auto simp: below_def)
  have len: "length sortedIds = card (below cs dp n)"
    using less.prems(2,3) distinct_card [of sortedIds] by simp
  have lenNE: "length (nonEmptyIds cs) = card ?NE" using dNE distinct_card by fastforce
  show ?case
  proof (cases "length sortedIds < length (nonEmptyIds cs)")
    case False
    then have "card ?NE \<le> card (below cs dp n)" using len lenNE by simp
    then have "below cs dp n = ?NE" using sub by (simp add: card_seteq)
    moreover have "dumpLoop cs m (length (nonEmptyIds cs)) ?xs sortedIds (below cs dp n) =
        Some (Inr sortedIds)"
      using False by (subst dumpLoop.simps) simp
    ultimately show ?thesis by (intro exI [of _ "[]"]) simp
  next
    case True
    have nB: "n < B"
    proof (rule ccontr)
      assume "\<not> n < B"
      then have "below cs dp n = ?NE" using B by (auto simp: below_def)
      then show False using True len lenNE by simp
    qed
    have xs: "set ?xs = layer cs dp n" "distinct ?xs" "sorted ?xs"
      by (simp_all add: finite_layer)
    have xsNE: "set ?xs \<subseteq> ?NE" using xs(1) by (auto simp: layer_def)
    have L: "dumpLayer cs m ?xs sortedIds (below cs dp n) [] =
         Inr (sortedIds @ ?xs, below cs dp (Suc n), news cs ?xs (below cs dp n))"
      using dumpLayer_ok [OF m t d xsNE, of sortedIds "below cs dp n" "[]"] xs(1)
      by (simp add: below_Suc)
    have N: "set (news cs ?xs (below cs dp n)) = layer cs dp (Suc n)"
      "distinct (news cs ?xs (below cs dp n))"
    proof -
      have np: "set (news cs ?xs (below cs dp n)) =
         {d \<in> ?NE. set (prereqsOf cs d) \<subseteq> below cs dp n \<union> set ?xs \<and>
            set (prereqsOf cs d) \<inter> set ?xs \<noteq> {}} \<and>
         distinct (news cs ?xs (below cs dp n))"
        using xs(1) below_layer_disjoint [of cs dp n]
        by (intro news_props [OF t xsNE xs(2)]) simp
      then show "distinct (news cs ?xs (below cs dp n))" ..
      have "{d \<in> ?NE. set (prereqsOf cs d) \<subseteq> below cs dp n \<union> layer cs dp n \<and>
            set (prereqsOf cs d) \<inter> layer cs dp n \<noteq> {}} = layer cs dp (Suc n)"
      proof (rule set_eqI)
        fix x
        show "x \<in> {d \<in> ?NE. set (prereqsOf cs d) \<subseteq> below cs dp n \<union> layer cs dp n \<and>
            set (prereqsOf cs d) \<inter> layer cs dp n \<noteq> {}} \<longleftrightarrow> x \<in> layer cs dp (Suc n)"
          using depth_Suc [OF dp, of x n] by (cases "x \<in> ?NE") (simp_all add: layer_def)
      qed
      then show "set (news cs ?xs (below cs dp n)) = layer cs dp (Suc n)"
        using np xs(1) by simp
    qed
    have S: "sort (news cs ?xs (below cs dp n)) = sorted_list_of_set (layer cs dp (Suc n))"
      using N by (simp add: sort_distinct)
    have step: "dumpLoop cs m (length (nonEmptyIds cs)) ?xs sortedIds (below cs dp n) =
        dumpLoop cs m (length (nonEmptyIds cs)) (sorted_list_of_set (layer cs dp (Suc n)))
          (sortedIds @ ?xs) (below cs dp (Suc n))"
      using True L S by (subst dumpLoop.simps) simp
    have d1: "distinct (sortedIds @ ?xs)"
      using less.prems(2,3) xs below_layer_disjoint [of cs dp n] by auto
    have s1: "set (sortedIds @ ?xs) = below cs dp (Suc n)"
      using less.prems(3) xs(1) by (simp add: below_Suc)
    have "B - Suc n < j" using nB less.prems(1) by simp
    from less.IH [OF this refl d1 s1]
    obtain ids where all: "dumpLoop cs m (length (nonEmptyIds cs))
          (sorted_list_of_set (layer cs dp (Suc n))) (sortedIds @ ?xs) (below cs dp (Suc n)) =
          Some (Inr ((sortedIds @ ?xs) @ ids)) \<and>
        distinct ids \<and> set ids = ?NE - below cs dp (Suc n) \<and>
        sorted (map (\<lambda>k. (dp k, k)) ids)" ..
    note ids = all [THEN conjunct1] all [THEN conjunct2, THEN conjunct1]
      all [THEN conjunct2, THEN conjunct2, THEN conjunct1]
      all [THEN conjunct2, THEN conjunct2, THEN conjunct2]
    have 1: "distinct (?xs @ ids)" using xs ids(2,3) by (auto simp: below_Suc)
    have 2: "set (?xs @ ids) = ?NE - below cs dp n"
      using xs(1) ids(3) layer_rest [of cs dp n] by simp
    have "\<forall>x \<in> set ?xs. \<forall>y \<in> set ids. (dp x, x) \<le> (dp y, y)"
      using xs(1) ids(3) layer_le [of _ cs dp n] by simp
    moreover have "sorted (map (\<lambda>k. (dp k, k)) ?xs)"
      using xs(1,3) by (intro sorted_layer [where n = n]) (auto simp: layer_def)
    ultimately have 3: "sorted (map (\<lambda>k. (dp k, k)) (?xs @ ids))"
      using ids(4) by (auto simp: sorted_append)
    from step ids(1) 1 2 3 show ?thesis by (intro exI [of _ "?xs @ ids"]) simp
  qed
qed

lemma dumpIds_ok:
  assumes t: "tableOK cs" and d: "depsOK cs" and dp: "isDepth cs dp"
  shows "\<exists>ids. dumpIds cs = Some (Inr ids) \<and> distinct ids \<and>
           set ids = set (nonEmptyIds cs) \<and> sorted (map (\<lambda>k. (dp k, k)) ids)"
proof -
  let ?NE = "set (nonEmptyIds cs)"
  obtain m where m: "makePrereqs cs = Inr m" "prereqsFor cs m"
    using makePrereqs_ok [OF t d] by blast
  have ids: "map fst m = nonEmptyIds cs" using m(2) by (simp add: prereqsFor_def)
  let ?f = "filter (\<lambda>i. map_of m i = Some []) (nonEmptyIds cs)"
  have "distinct ?f" using distinct_nonEmptyIds [OF t] by simp
  moreover have "set ?f = layer cs dp 0"
  proof -
    have "map_of m i = Some [] \<longleftrightarrow> dp i = 0" if i: "i \<in> ?NE" for i
    proof -
      have "map_option set (map_of m i) = Some (set (prereqsOf cs i))"
        using m(2) i by (simp add: prereqsFor_def)
      then obtain ps where "map_of m i = Some ps" "set ps = set (prereqsOf cs i)" by auto
      then show ?thesis using depth_zero [OF dp i] by auto
    qed
    then show ?thesis by (auto simp: layer_def)
  qed
  ultimately have c0: "sort ?f = sorted_list_of_set (layer cs dp 0)" by (simp add: sort_distinct)
  have "finite (dp ` ?NE)" by simp
  then obtain B where B: "\<forall>k \<in> ?NE. dp k < B"
    using finite_nat_set_iff_bounded [of "dp ` ?NE"] by auto
  have b0: "below cs dp 0 = {}" by (simp add: below_def)
  have "\<exists>ids. dumpLoop cs m (length (nonEmptyIds cs)) (sorted_list_of_set (layer cs dp 0))
              [] (below cs dp 0) = Some (Inr ([] @ ids)) \<and>
           distinct ids \<and> set ids = ?NE - below cs dp 0 \<and>
           sorted (map (\<lambda>k. (dp k, k)) ids)"
    by (rule dumpLoop_layers [OF t d m(2) dp B refl]) (simp_all add: b0)
  then show ?thesis using m(1) ids c0 by (simp add: dumpIds_def b0)
qed

text \<open>The final \<^verbatim>\<open>map\<close> pairs every id with the formula of its cell, when every formula
  prints.\<close>

definition formulasOK :: "'n arith \<Rightarrow> (string \<times> 'n cellinfo) list \<Rightarrow> bool" where
  "formulasOK A cs = list_all (\<lambda>kc. case formula A (snd kc) of Inl e \<Rightarrow> False | Inr f \<Rightarrow> True) cs"

lemma dumpFormulas_ok:
  assumes "formulasOK A cs" and t: "tableOK cs"
  shows "set ids \<subseteq> set (nonEmptyIds cs) \<Longrightarrow>
     \<exists>ps. dumpFormulas A cs ids = Inr ps \<and> map fst ps = ids \<and>
       (\<forall>p \<in> set ps. \<exists>c. map_of cs (fst p) = Some c \<and> \<not> isEmpty c \<and> formula A c = Inr (snd p))"
proof (induction ids)
  case Nil
  then show ?case by simp
next
  case (Cons i ids)
  have "i \<in> set (nonEmptyIds cs)" using Cons.prems by simp
  then obtain c0 where c0: "(i, c0) \<in> set cs" "\<not> isEmpty c0" by (auto simp: nonEmptyIds_def)
  then have l: "map_of cs i = Some c0" using t by (simp add: tableOK_def)
  have "case formula A c0 of Inl e \<Rightarrow> False | Inr f \<Rightarrow> True"
    using assms c0(1) unfolding formulasOK_def list_all_iff by fastforce
  then obtain f where f: "formula A c0 = Inr f" by (cases "formula A c0") simp_all
  obtain ps where ps: "dumpFormulas A cs ids = Inr ps" "map fst ps = ids"
    "\<forall>p \<in> set ps. \<exists>c. map_of cs (fst p) = Some c \<and> \<not> isEmpty c \<and> formula A c = Inr (snd p)"
    using Cons by auto
  show ?case using l f ps c0(2) by simp
qed


text \<open>
  C7.  Take a table with distinct keys in which every cell carries its key as its id and
  has a repetition-free set of dependents, none of them the name of a property of
  \<^verbatim>\<open>Object.prototype\<close>; let every formula print, and let \<open>dp\<close> be the depth function of
  the table (0 for a non-empty cell with no non-empty prerequisite, otherwise one more
  than the greatest depth of its prerequisites, a prerequisite of \<open>k\<close> being a non-empty
  cell with \<open>k\<close> among its dependents).  Then \<^verbatim>\<open>dump()\<close> returns: its result lists
  every non-empty cell exactly once, each with the formula of its cell, by increasing
  depth and, within one depth, by increasing cell id.
\<close>

theorem dump_ordered_by_depth:
  assumes "tableOK (cells st)" and "depsOK (cells st)" and "formulasOK A (cells st)"
    and "isDepth (cells st) dp"
  shows "\<exists>ps. dump A st = Some (Inr ps) \<and>
           distinct (map fst ps) \<and>
           set (map fst ps) = set (nonEmptyIds (cells st)) \<and>
           (\<forall>p \<in> set ps. \<exists>c. map_of (cells st) (fst p) = Some c \<and> \<not> isEmpty c \<and>
                                formula A c = Inr (snd p)) \<and>
           sorted (map (\<lambda>p. (dp (fst p), fst p)) ps)"
proof -
  obtain ids where ids: "dumpIds (cells st) = Some (Inr ids)" "distinct ids"
      "set ids = set (nonEmptyIds (cells st))" "sorted (map (\<lambda>k. (dp k, k)) ids)"
    using dumpIds_ok [OF assms(1,2,4)] by blast
  obtain ps where ps: "dumpFormulas A (cells st) ids = Inr ps" "map fst ps = ids"
      "\<forall>p \<in> set ps. \<exists>c. map_of (cells st) (fst p) = Some c \<and> \<not> isEmpty c \<and>
                          formula A c = Inr (snd p)"
    using dumpFormulas_ok [OF assms(3,1), of ids] ids(3) by auto
  have "map (\<lambda>p. (dp (fst p), fst p)) ps = map (\<lambda>k. (dp k, k)) (map fst ps)"
    by (simp add: comp_def)
  then have "sorted (map (\<lambda>p. (dp (fst p), fst p)) ps)" using ids(4) ps(2) by simp
  moreover have "dump A st = Some (Inr ps)" using ids(1) ps(1) by (simp add: dump_def)
  ultimately show ?thesis using ids(2,3) ps(2,3) by (intro exI [of _ ps]) simp
qed

text \<open>
  The sheet \<^verbatim>\<open>a1 = 1\<close>, \<^verbatim>\<open>b1 = a1+1\<close>, \<^verbatim>\<open>c1 = a1+b1\<close>, \<^verbatim>\<open>a2 = 9\<close>: \<^verbatim>\<open>a1\<close> and \<^verbatim>\<open>a2\<close> have
  depth 0, \<^verbatim>\<open>b1\<close> depth 1 and \<^verbatim>\<open>c1\<close> depth 2.
\<close>

theorem dump_ordered_by_depth_witness:
  "\<exists>st1 st2 st3 st dp.
     eval 5 jsArith ''a1'' ''1'' True (newSpreadsheet None) = Some (Inr [(''a1'', Exact 1)], st1) \<and>
     eval 5 jsArith ''b1'' ''a1+1'' True st1 = Some (Inr [(''b1'', Exact 2)], st2) \<and>
     eval 5 jsArith ''c1'' ''a1+b1'' True st2 = Some (Inr [(''c1'', Exact 3)], st3) \<and>
     eval 5 jsArith ''a2'' ''9'' True st3 = Some (Inr [(''a2'', Exact 9)], st) \<and>
     tableOK (cells st) \<and> depsOK (cells st) \<and> formulasOK jsArith (cells st) \<and>
     isDepth (cells st) dp \<and>
     map dp [''a1'', ''a2'', ''b1'', ''c1''] = [0, 0, 1, 2] \<and>
     (\<exists>ps. dump jsArith st = Some (Inr ps) \<and>
           distinct (map fst ps) \<and>
           set (map fst ps) = set (nonEmptyIds (cells st)) \<and>
           (\<forall>p \<in> set ps. \<exists>c. map_of (cells st) (fst p) = Some c \<and> \<not> isEmpty c \<and>
                                formula jsArith c = Inr (snd p)) \<and>
           sorted (map (\<lambda>p. (dp (fst p), fst p)) ps)) \<and>
     dump jsArith st =
       Some (Inr [(''a1'', ''1''), (''a2'', ''9''), (''b1'', ''a1+1''), (''c1'', ''a1+b1'')])"
proof -
  let ?dp = "\<lambda>k. if k = ''b1'' then 1 else if k = ''c1'' then 2 else (0 :: nat)"
  let ?b = "App ''+'' [Ref (rel (- 1) 0), Num (Exact 1)]"
  let ?c = "App ''+'' [Ref (rel (- 2) 0), Ref (rel (- 1) 0)]"
  let ?a1 = "\<lparr> cid = ''a1'', val = Exact 1, ast = Some (Num (Exact 1)), dependents = [] \<rparr>"
  let ?b1 = "\<lparr> cid = ''b1'', val = Exact 2, ast = Some ?b, dependents = [] \<rparr>"
  let ?c1 = "\<lparr> cid = ''c1'', val = Exact 3, ast = Some ?c, dependents = [] \<rparr>"
  let ?a2 = "\<lparr> cid = ''a2'', val = Exact 9, ast = Some (Num (Exact 9)), dependents = [] \<rparr>"
  let ?st1 = "\<lparr> store = None, storeLog = [], cells = [(''a1'', ?a1)],
                undos = [(''a1'', None)] \<rparr>"
  let ?st2 = "\<lparr> store = None, storeLog = [],
                cells = [(''a1'', ?a1 \<lparr> dependents := [''b1''] \<rparr>), (''b1'', ?b1)],
                undos = [(''b1'', None), (''a1'', Some ?a1)] \<rparr>"
  let ?cs = "[(''a1'', ?a1 \<lparr> dependents := [''b1'', ''c1''] \<rparr>),
              (''b1'', ?b1 \<lparr> dependents := [''c1''] \<rparr>), (''c1'', ?c1)]"
  let ?st3 = "\<lparr> store = None, storeLog = [], cells = ?cs,
                undos = [(''c1'', None), (''a1'', Some (?a1 \<lparr> dependents := [''b1''] \<rparr>)),
                         (''b1'', Some ?b1)] \<rparr>"
  let ?st = "\<lparr> store = None, storeLog = [], cells = ?cs @ [(''a2'', ?a2)],
               undos = [(''a2'', None)] \<rparr>"
  have 1: "eval 5 jsArith ''a1'' ''1'' True (newSpreadsheet None) =
             Some (Inr [(''a1'', Exact 1)], ?st1)"
    by code_simp
  have 2: "eval 5 jsArith ''b1'' ''a1+1'' True ?st1 = Some (Inr [(''b1'', Exact 2)], ?st2)"
    by code_simp
  have 3: "eval 5 jsArith ''c1'' ''a1+b1'' True ?st2 = Some (Inr [(''c1'', Exact 3)], ?st3)"
    by code_simp
  have 4: "eval 5 jsArith ''a2'' ''9'' True ?st3 = Some (Inr [(''a2'', Exact 9)], ?st)"
    by code_simp
  have t: "tableOK (cells ?st)"
    by code_simp
  have d: "depsOK (cells ?st)"
    by code_simp
  have f: "formulasOK jsArith (cells ?st)"
    by code_simp
  have i: "isDepth (cells ?st) ?dp"
    by code_simp
  have m: "map ?dp [''a1'', ''a2'', ''b1'', ''c1''] = [0, 0, 1, 2]"
    by simp
  have r: "dump jsArith ?st =
       Some (Inr [(''a1'', ''1''), (''a2'', ''9''), (''b1'', ''a1+1''), (''c1'', ''a1+b1'')])"
    by code_simp
  from 1 2 3 4 t d f i m r dump_ordered_by_depth [OF t d f i] show ?thesis
    by (intro exI [of _ ?st1] exI [of _ ?st2] exI [of _ ?st3] exI [of _ ?st] exI [of _ ?dp])
       (simp only: simp_thms)
qed

end
